theory Spec2Isabelle
  imports Main "HOL-Library.Sublist" "HOL-Library.AList"
begin

section \<open>The normalization engine of \<^verbatim>\<open>src/nodejs/normalize.js\<close>\<close>

text \<open>
  The module exports one function, \<^verbatim>\<open>normalizeData\<close>, which runs \<^verbatim>\<open>reduceData\<close> and then,
  when the options ask for them, \<^verbatim>\<open>getDataByKey\<close>, \<^verbatim>\<open>filterDataByKeys\<close>,
  \<^verbatim>\<open>renameKeysInData\<close> and \<^verbatim>\<open>runCustomFunction\<close>. Each of these is embedded below as a HOL
  function of the same name.

  Scope of the embedding.
  \<^item> A value is what a parsed device response holds: \<^verbatim>\<open>null\<close>, a boolean, a number, a string,
    an array or an object. Numbers are never computed with, only tested for truthiness, and
    are integers here.
  \<^item> An object is its prototype together with the list of its own properties in the order
    \<^verbatim>\<open>Object.keys\<close> enumerates them: the keys that are array indices first, ascending, then
    the others in the order of their creation.
  \<^item> The prototype is part of the model because the source reads with \<^verbatim>\<open>data[k]\<close> and
    \<^verbatim>\<open>k in data\<close>, which follow the prototype chain, and writes with \<^verbatim>\<open>ret[k] = v\<close>, which
    for the key \<^verbatim>\<open>__proto__\<close> runs the setter of \<^verbatim>\<open>Object.prototype\<close> instead of creating a
    property.
  \<^item> What the prototypes of the engine hold (\<^verbatim>\<open>toString\<close>, \<^verbatim>\<open>constructor\<close>, the array
    methods) is a parameter, a record of names.
  \<^item> An exception of the source is the \<open>Inl\<close> branch of a sum.
\<close>

subsection \<open>Values and errors\<close>

text \<open>
  In \<^verbatim>\<open>JObj p kvs\<close> the list \<^verbatim>\<open>kvs\<close> holds the own properties in the order \<^verbatim>\<open>Object.keys\<close>
  enumerates them, and \<^verbatim>\<open>p\<close> is the prototype: \<open>None\<close> for \<^verbatim>\<open>Object.prototype\<close>, which is what
  \<^verbatim>\<open>JSON.parse\<close> and the literal \<^verbatim>\<open>{}\<close> give an object, \<open>Some q\<close> for an object or array
  \<open>q\<close> that an assignment to \<^verbatim>\<open>__proto__\<close> has installed, and \<open>Some JNull\<close> for no
  prototype at all.
\<close>

datatype json =
    JNull
  | JBool bool
  | JNum int
  | JStr string
  | JArr "json list"
  | JObj "json option" "(string \<times> json) list"

text \<open>
  An object as it is parsed or created by \<^verbatim>\<open>{}\<close>.
\<close>

abbreviation JPlain :: "(string \<times> json) list \<Rightarrow> json" where
  "JPlain kvs \<equiv> JObj None kvs"

text \<open>
  What the source raises: the \<^verbatim>\<open>TypeError\<close> of the engine, the \<^verbatim>\<open>Error\<close> of line 32, what a
  registered function throws, and the wrapper that line 39 puts around that.
\<close>

datatype error =
    TypeError
  | NamedArgumentNotAllowed
  | FunctionError string
  | RunCustomFunctionFailed error

text \<open>
  Truthiness of a property read; \<open>None\<close> is \<^verbatim>\<open>undefined\<close>.
\<close>

fun truthy :: "json option \<Rightarrow> bool" where
  "truthy None = False"
| "truthy (Some JNull) = False"
| "truthy (Some (JBool b)) = b"
| "truthy (Some (JNum n)) = (n \<noteq> 0)"
| "truthy (Some (JStr s)) = (s \<noteq> [])"
| "truthy (Some (JArr xs)) = True"
| "truthy (Some (JObj p kvs)) = True"

fun str_truthy :: "string option \<Rightarrow> bool" where
  "str_truthy None = False"
| "str_truthy (Some s) = (s \<noteq> [])"

subsection \<open>Strings\<close>

text \<open>
  The decimal text of an array index, as \<^verbatim>\<open>Object.keys\<close> gives it.
\<close>

definition digit_char :: "nat \<Rightarrow> char" where
  "digit_char n = ''0123456789'' ! n"

fun string_of_nat :: "nat \<Rightarrow> string" where
  "string_of_nat n =
     (if n < 10 then [digit_char n]
      else string_of_nat (n div 10) @ [digit_char (n mod 10)])"

declare string_of_nat.simps [simp del]

definition index_keys :: "nat \<Rightarrow> string list" where
  "index_keys n = map string_of_nat [0..<n]"

text \<open>
  A key is an array index when it is the canonical decimal text of an integer below
  \<open>2\<^sup>3\<^sup>2 - 1\<close>: digits only, and no leading zero except for \<^verbatim>\<open>0\<close> itself.
\<close>

definition digit_of :: "char \<Rightarrow> int option" where
  "digit_of c = map_of (zip ''0123456789'' [0, 1, 2, 3, 4, 5, 6, 7, 8, 9]) c"

fun int_of_digits :: "int \<Rightarrow> string \<Rightarrow> int option" where
  "int_of_digits acc [] = Some acc"
| "int_of_digits acc (c # cs) =
     (case digit_of c of None \<Rightarrow> None | Some d \<Rightarrow> int_of_digits (10 * acc + d) cs)"

definition index_value :: "string \<Rightarrow> int option" where
  "index_value k =
     (if k = [] \<or> (hd k = CHR ''0'' \<and> k \<noteq> ''0'') then None
      else case int_of_digits 0 k of
        Some n \<Rightarrow> if n < 4294967295 then Some n else None
      | None \<Rightarrow> None)"

text \<open>
  \<^verbatim>\<open>s.replace(pat, rep)\<close> with a string pattern: the first occurrence only, anywhere in
  \<open>s\<close>.
\<close>

fun replace_first :: "string \<Rightarrow> string \<Rightarrow> string \<Rightarrow> string" where
  "replace_first pat rep [] = (if pat = [] then rep else [])"
| "replace_first pat rep (c # cs) =
     (if prefix pat (c # cs) then rep @ drop (length pat) (c # cs)
      else c # replace_first pat rep cs)"

text \<open>
  \<^verbatim>\<open>k.includes(i)\<close>: \<open>i\<close> occurs in \<open>k\<close> as a contiguous piece.
\<close>

definition str_includes :: "string \<Rightarrow> string \<Rightarrow> bool" where
  "str_includes k i = sublist i k"

text \<open>
  \<^verbatim>\<open>key.split(sep)\<close> with a string separator: the pieces between the occurrences of
  \<open>sep\<close>, found from the left; an empty separator gives the single characters.
\<close>

function split_from :: "string \<Rightarrow> string \<Rightarrow> string \<Rightarrow> string list" where
  "split_from sep cur [] = [cur]"
| "split_from sep cur (c # cs) =
     (if sep \<noteq> [] \<and> prefix sep (c # cs)
      then cur # split_from sep [] (drop (length sep) (c # cs))
      else split_from sep (cur @ [c]) cs)"
  by pat_completeness auto
termination
  by (relation "measure (\<lambda>(sep, cur, s). length s)") auto

definition split :: "string \<Rightarrow> string \<Rightarrow> string list" where
  "split sep s = (if sep = [] then map (\<lambda>c. [c]) s else split_from sep [] s)"

subsection \<open>Objects\<close>

text \<open>
  Defining an own property. An existing one keeps its place. A new one whose key is an array
  index goes among the index keys, which come first and ascend; any other new one goes last.
  This is the order in which \<^verbatim>\<open>Object.keys\<close> enumerates.
\<close>

fun insert_index :: "int \<Rightarrow> string \<times> json \<Rightarrow> (string \<times> json) list \<Rightarrow> (string \<times> json) list" where
  "insert_index n kv [] = [kv]"
| "insert_index n kv (p # ps) =
     (case index_value (fst p) of
        Some m \<Rightarrow> if m < n then p # insert_index n kv ps else kv # p # ps
      | None \<Rightarrow> kv # p # ps)"

definition put :: "(string \<times> json) list \<Rightarrow> string \<Rightarrow> json \<Rightarrow> (string \<times> json) list" where
  "put kvs k v =
     (if k \<in> set (map fst kvs) then AList.update k v kvs
      else case index_value k of
        Some n \<Rightarrow> insert_index n (k, v) kvs
      | None \<Rightarrow> kvs @ [(k, v)])"

text \<open>
  The own enumerable properties of a value that is not \<^verbatim>\<open>null\<close>: those of an object, the
  elements of an array under their indices, the characters of a string under theirs, none for
  a number or a boolean.
\<close>

fun own_props :: "json \<Rightarrow> (string \<times> json) list" where
  "own_props (JObj p kvs) = kvs"
| "own_props (JArr xs) = zip (index_keys (length xs)) xs"
| "own_props (JStr s) = zip (index_keys (length s)) (map (\<lambda>c. JStr [c]) s)"
| "own_props v = []"

definition object_keys :: "json \<Rightarrow> string list" where
  "object_keys v = map fst (own_props v)"

text \<open>
  The search that \<^verbatim>\<open>data[k]\<close> and \<^verbatim>\<open>k in data\<close> make along the prototype chain. \<open>Inl v\<close>:
  an object on the chain has the own property, with value \<open>v\<close>; an array has its elements
  and \<^verbatim>\<open>length\<close>, a string its characters and \<^verbatim>\<open>length\<close>. \<open>Inr\<close>: no value of the chain has
  it, and the chain goes on into the prototypes of the engine: \<^verbatim>\<open>Object.prototype\<close> alone,
  \<^verbatim>\<open>Array.prototype\<close> and then \<^verbatim>\<open>Object.prototype\<close>, none (the chain ends at \<^verbatim>\<open>null\<close>), or those
  of a primitive.
\<close>

datatype chain_end = EndNull | EndObject | EndArray | EndOther

fun find_prop :: "json \<Rightarrow> string \<Rightarrow> json + chain_end" where
  "find_prop (JObj None kvs) k =
     (case map_of kvs k of Some v \<Rightarrow> Inl v | None \<Rightarrow> Inr EndObject)"
| "find_prop (JObj (Some q) kvs) k =
     (case map_of kvs k of Some v \<Rightarrow> Inl v | None \<Rightarrow> find_prop q k)"
| "find_prop (JArr xs) k =
     (if k = ''length'' then Inl (JNum (int (length xs)))
      else case map_of (own_props (JArr xs)) k of
        Some v \<Rightarrow> Inl v
      | None \<Rightarrow> Inr EndArray)"
| "find_prop (JStr s) k =
     (if k = ''length'' then Inl (JNum (int (length s)))
      else case map_of (own_props (JStr s)) k of
        Some v \<Rightarrow> Inl v
      | None \<Rightarrow> Inr EndOther)"
| "find_prop JNull k = Inr EndNull"
| "find_prop v k = Inr EndOther"

text \<open>
  The values whose \<^verbatim>\<open>typeof\<close> is \<^verbatim>\<open>'object'\<close> and that are not \<^verbatim>\<open>null\<close>.
\<close>

fun is_object :: "json \<Rightarrow> bool" where
  "is_object (JObj p kvs) = True"
| "is_object (JArr xs) = True"
| "is_object v = False"

text \<open>
  \<^verbatim>\<open>ret[k] = v\<close> on an object. An own property is updated, and a key other than \<^verbatim>\<open>__proto__\<close>
  gets a property. For \<^verbatim>\<open>__proto__\<close> that is not an own property the chain decides: when it
  reaches \<^verbatim>\<open>Object.prototype\<close> the setter there runs, which makes an object or array \<open>v\<close>
  the prototype, removes the prototype for \<^verbatim>\<open>null\<close> and does nothing for any other value, in
  each case without creating a property; when the chain ends at \<^verbatim>\<open>null\<close> before, or a value on
  it has a data property of that name, the property is created.
\<close>

fun js_set :: "json \<Rightarrow> string \<Rightarrow> json \<Rightarrow> json" where
  "js_set (JObj p kvs) k v =
     (if k \<in> set (map fst kvs) \<or> k \<noteq> ''__proto__'' then JObj p (put kvs k v)
      else case (case p of None \<Rightarrow> Inr EndObject | Some q \<Rightarrow> find_prop q k) of
        Inl inherited \<Rightarrow> JObj p (put kvs k v)
      | Inr EndNull \<Rightarrow> JObj p (put kvs k v)
      | Inr reached \<Rightarrow> if is_object v \<or> v = JNull then JObj (Some v) kvs else JObj p kvs)"
| "js_set ret k v = ret"

subsection \<open>reduceData: the pieces\<close>

text \<open>
  \<^verbatim>\<open>data[k]\<close> for a key that the prototypes of the engine do not have: the value found on the
  chain, or \<^verbatim>\<open>undefined\<close>.
\<close>

definition read_prop :: "json \<Rightarrow> string \<Rightarrow> json option" where
  "read_prop data k = (case find_prop data k of Inl v \<Rightarrow> Some v | Inr reached \<Rightarrow> None)"

definition keysToReduce :: "string list" where
  "keysToReduce = [''nestedStats'', ''value'', ''description'', ''color'']"

text \<open>
  The loop over \<^verbatim>\<open>keysToReduce\<close>: the first key whose property is defined while the value
  has exactly one own key gives the item to recurse into. No prototype of the engine has a
  property of one of these four names.
\<close>

fun scaffold_item :: "json \<Rightarrow> string list \<Rightarrow> json option" where
  "scaffold_item data [] = None"
| "scaffold_item data (key # keys) =
     (case read_prop data key of
        Some item \<Rightarrow>
          if length (object_keys data) = 1 then Some item else scaffold_item data keys
      | None \<Rightarrow> scaffold_item data keys)"

text \<open>
  \<^verbatim>\<open>data.entries\<close>: a value found on the chain, the method \<^verbatim>\<open>Array.prototype.entries\<close> when
  the chain reaches that prototype without one, and \<^verbatim>\<open>undefined\<close> otherwise. The method is
  truthy and has no enumerable property.
\<close>

datatype entries_read = NoEntries | EntriesValue json | EntriesMethod

definition read_entries :: "json \<Rightarrow> entries_read" where
  "read_entries data =
     (case find_prop data ''entries'' of
        Inl e \<Rightarrow> EntriesValue e
      | Inr EndArray \<Rightarrow> EntriesMethod
      | Inr reached \<Rightarrow> NoEntries)"

text \<open>
  \<^verbatim>\<open>data.entries && !Array.isArray(data)\<close>; the comment of the source notes that
  \<^verbatim>\<open>.entries\<close> is true of an array.
\<close>

fun has_entries :: "json \<Rightarrow> bool" where
  "has_entries (JArr xs) = False"
| "has_entries data =
     (case read_entries data of
        EntriesValue e \<Rightarrow> truthy (Some e)
      | EntriesMethod \<Rightarrow> True
      | NoEntries \<Rightarrow> False)"

text \<open>
  \<^verbatim>\<open>Object.keys(data.entries)\<close> with the values \<^verbatim>\<open>data.entries[k]\<close>.
\<close>

definition entry_props :: "json \<Rightarrow> (string \<times> json) list" where
  "entry_props data =
     (case read_entries data of EntriesValue e \<Rightarrow> own_props e | other \<Rightarrow> [])"

text \<open>
  Line 172: the first \<^verbatim>\<open>https://localhost/\<close> is removed, and from the result the first
  \<^verbatim>\<open>mgmt/tm/\<close>.
\<close>

definition simplify_key :: "string \<Rightarrow> string" where
  "simplify_key k =
     replace_first ''mgmt/tm/'' [] (replace_first ''https://localhost/'' [] k)"

text \<open>
  The object built from \<^verbatim>\<open>data.entries\<close> by the assignments \<^verbatim>\<open>ret[kM] = v\<close> of line 173, before it
  is reduced.
\<close>

definition entries_ret :: "json \<Rightarrow> json" where
  "entries_ret data =
     foldl (\<lambda>ret (k, v). js_set ret (simplify_key k) v) (JPlain []) (entry_props data)"

record catm =
  keyName :: "string option"
  keyNamePrefix :: "string option"

text \<open>
  Modelled from the spec: \<^verbatim>\<open>util.convertArrayToMap\<close> (\<^verbatim>\<open>util.js\<close> is not among the sources).
  The spec gives it as \<^verbatim>\<open>ArrayToMapConverter(sequence, keyFieldName, {keyPrefix})\<close>, pivoting a
  sequence into a keyed mapping by a designated field, and gives
  \<^verbatim>\<open>reduce([{"name":"a","value":1},{"name":"b","value":2}], {convertArrayToMap:{keyName:"name"}})\<close>
  as \<^verbatim>\<open>{"a":1,"b":2}\<close>. So each element is stored under the text of its key field, after the
  prefix when there is one, and without that field, which has become the key.
  \<open>without_field\<close> is the element as it is stored.
\<close>

fun without_field :: "string \<Rightarrow> json \<Rightarrow> json" where
  "without_field key (JObj p kvs) = JObj p (AList.delete key kvs)"
| "without_field key v = v"

text \<open>
  Modelled from the spec: the text of the key field. A string is its own text, as in the
  example of the spec; the text of any other field value is the parameter \<open>to_str\<close>.
\<close>

definition field_text :: "(json option \<Rightarrow> string) \<Rightarrow> json option \<Rightarrow> string" where
  "field_text to_str f = (case f of Some (JStr s) \<Rightarrow> s | other \<Rightarrow> to_str other)"

text \<open>
  Modelled from the spec: the pivot, one element after the other into a new mapping. Reading
  the field of \<^verbatim>\<open>null\<close> raises.
\<close>

fun pivot :: "(json option \<Rightarrow> string) \<Rightarrow> string \<Rightarrow> string option
    \<Rightarrow> (string \<times> json) list \<Rightarrow> json list \<Rightarrow> error + json" where
  "pivot to_str key pre ret [] = Inr (JPlain ret)"
| "pivot to_str key pre ret (i # rest) =
     (if i = JNull then Inl TypeError
      else pivot to_str key pre
             (put ret ((if str_truthy pre then the pre else []) @ field_text to_str (read_prop i key))
                (without_field key i))
             rest)"

text \<open>
  Modelled from the spec: the converter with the arguments in the order of the call in
  \<^verbatim>\<open>reduceData\<close>.
\<close>

definition convertArrayToMap :: "(json option \<Rightarrow> string) \<Rightarrow> json list \<Rightarrow> string
    \<Rightarrow> string option \<Rightarrow> error + json" where
  "convertArrayToMap to_str data key keyPrefix = pivot to_str key keyPrefix [] data"

subsection \<open>A measure for the recursion of reduceData\<close>

text \<open>
  \<^verbatim>\<open>reduceData\<close> calls itself on objects it has just built, so its recursion is not
  structural. Twice the weight below, plus one for a value that takes the entries branch,
  decreases at every call; the one separates \<^verbatim>\<open>{"entries": "a"}\<close> from the \<^verbatim>\<open>{"0": "a"}\<close>
  built out of it.
\<close>

primrec weight :: "json \<Rightarrow> nat" where
  "weight JNull = 0"
| "weight (JBool b) = 0"
| "weight (JNum n) = 0"
| "weight (JStr s) = 2 * length s - 1"
| "weight (JArr xs) = 4 + sum_list (map (\<lambda>x. Suc (weight x)) xs)"
| "weight (JObj p kvs) =
     2 + (case map_option weight p of None \<Rightarrow> 0 | Some n \<Rightarrow> Suc n)
       + sum_list (map (\<lambda>p. Suc (snd p)) (map (map_prod id weight) kvs))"

definition props_weight :: "(string \<times> json) list \<Rightarrow> nat" where
  "props_weight kvs = (\<Sum>p\<leftarrow>kvs. Suc (weight (snd p)))"

definition proto_weight :: "json option \<Rightarrow> nat" where
  "proto_weight p = (case p of None \<Rightarrow> 0 | Some q \<Rightarrow> Suc (weight q))"

lemma weight_JObj [simp]:
  "weight (JObj p kvs) = 2 + proto_weight p + props_weight kvs"
  by (cases p) (simp_all add: comp_def props_weight_def proto_weight_def)

declare weight.simps(6) [simp del]

lemma props_weight_simps [simp]:
  "props_weight [] = 0"
  "props_weight (kv # kvs) = Suc (weight (snd kv)) + props_weight kvs"
  "props_weight (kvs @ kvs') = props_weight kvs + props_weight kvs'"
  by (simp_all add: props_weight_def)

lemma proto_weight_simps [simp]:
  "proto_weight None = 0"
  "proto_weight (Some q) = Suc (weight q)"
  by (simp_all add: proto_weight_def)

definition size_of :: "json \<Rightarrow> nat" where
  "size_of data = 2 * weight data + (if has_entries data then 1 else 0)"

lemma digit_char_digit: "n < 10 \<Longrightarrow> digit_char n \<in> set ''0123456789''"
  unfolding digit_char_def by (rule nth_mem) simp

lemma string_of_nat_digits: "set (string_of_nat n) \<subseteq> set ''0123456789''"
proof (induction n rule: string_of_nat.induct)
  case (1 n)
  show ?case
  proof (cases "n < 10")
    case True
    then show ?thesis
      using digit_char_digit [of n] by (subst string_of_nat.simps) simp
  next
    case False
    have "n mod 10 < 10" by simp
    then have "digit_char (n mod 10) \<in> set ''0123456789''" by (rule digit_char_digit)
    with 1 False show ?thesis by (subst string_of_nat.simps) simp
  qed
qed

lemma replace_first_subset: "set (replace_first pat [] s) \<subseteq> set s"
proof (induction s)
  case Nil
  then show ?case by simp
next
  case (Cons c cs)
  have "set (drop (length pat) (c # cs)) \<subseteq> set (c # cs)" by (rule set_drop_subset)
  with Cons show ?case by auto
qed

lemma simplify_key_subset: "set (simplify_key k) \<subseteq> set k"
  unfolding simplify_key_def
  by (rule subset_trans [OF replace_first_subset replace_first_subset])

lemma index_key_no_letter:
  assumes "k \<in> set (index_keys n)" and "c \<in> set name" and "c \<notin> set ''0123456789''"
  shows "k \<noteq> name" and "simplify_key k \<noteq> name"
proof -
  from assms(1) obtain i where k: "k = string_of_nat i" by (auto simp: index_keys_def)
  have d: "set k \<subseteq> set ''0123456789''" unfolding k by (rule string_of_nat_digits)
  then have "c \<notin> set k" using assms(3) by (rule contra_subsetD)
  with assms(2) show "k \<noteq> name" by auto
  have "set (simplify_key k) \<subseteq> set ''0123456789''"
    by (rule subset_trans [OF simplify_key_subset d])
  then have "c \<notin> set (simplify_key k)" using assms(3) by (rule contra_subsetD)
  with assms(2) show "simplify_key k \<noteq> name" by auto
qed

lemma map_of_index_None:
  assumes "c \<in> set name" and "c \<notin> set ''0123456789''"
  shows "map_of (zip (index_keys n) vs) name = None"
proof -
  have "name \<notin> set (index_keys n)" using index_key_no_letter(1) [OF _ assms] by blast
  then have "name \<notin> fst ` set (zip (index_keys n) vs)"
    by (auto dest: set_zip_leftD)
  then show ?thesis by (simp add: map_of_eq_None_iff)
qed

definition named_keys :: "string set" where
  "named_keys = insert ''entries'' (set keysToReduce)"

lemma named_key_letter:
  assumes "k \<in> named_keys"
  shows "\<exists>c\<in>set k. c \<notin> set ''0123456789''"
proof -
  from assms have "k = ''entries'' \<or> k = ''nestedStats'' \<or> k = ''value''
      \<or> k = ''description'' \<or> k = ''color''"
    by (simp add: named_keys_def keysToReduce_def)
  then show ?thesis by (elim disjE) simp_all
qed

lemma named_key_not_length: "k \<in> named_keys \<Longrightarrow> k \<noteq> ''length''"
  by (auto simp: named_keys_def keysToReduce_def)

lemma find_prop_named:
  assumes "k \<in> named_keys"
  shows "find_prop (JStr s) k = Inr EndOther" and "find_prop (JArr xs) k = Inr EndArray"
proof -
  from named_key_letter [OF assms] obtain c where c: "c \<in> set k" "c \<notin> set ''0123456789''"
    by blast
  show "find_prop (JStr s) k = Inr EndOther"
    using named_key_not_length [OF assms] by (simp add: map_of_index_None [OF c])
  show "find_prop (JArr xs) k = Inr EndArray"
    using named_key_not_length [OF assms] by (simp add: map_of_index_None [OF c])
qed

lemma member_weight_le:
  "map_of kvs k = Some v \<Longrightarrow> Suc (weight v) \<le> props_weight kvs"
  by (induction kvs) (auto split: if_splits)

lemma elem_weight_le: "x \<in> set xs \<Longrightarrow> Suc (weight x) \<le> (\<Sum>x\<leftarrow>xs. Suc (weight x))"
  by (induction xs) auto

lemma find_prop_weight:
  "find_prop data k = Inl v \<Longrightarrow>
     weight v \<le> weight data \<and> (\<forall>p kvs. data = JObj p kvs \<longrightarrow> weight v + 3 \<le> weight data)"
proof (induction data k rule: find_prop.induct)
  case (1 kvs k)
  then show ?case by (auto split: option.splits dest: member_weight_le)
next
  case (2 q kvs k)
  then show ?case by (auto split: option.splits dest: member_weight_le)
next
  case (3 xs k)
  show ?case
  proof (cases "k = ''length''")
    case True
    with 3 show ?thesis by auto
  next
    case False
    with 3 have "map_of (zip (index_keys (length xs)) xs) k = Some v"
      by (simp split: option.splits)
    then have "v \<in> set xs" by (auto dest!: map_of_SomeD set_zip_rightD)
    from elem_weight_le [OF this] show ?thesis by simp
  qed
next
  case (4 s k)
  show ?case
  proof (cases "k = ''length''")
    case True
    with 4 show ?thesis by auto
  next
    case False
    with 4 have "map_of (zip (index_keys (length s)) (map (\<lambda>c. JStr [c]) s)) k = Some v"
      by (simp split: option.splits)
    then have "v \<in> set (map (\<lambda>c. JStr [c]) s)" by (auto dest!: map_of_SomeD set_zip_rightD)
    then obtain c where "c \<in> set s" "v = JStr [c]" by auto
    then show ?thesis by (cases s) auto
  qed
qed simp_all

lemma find_prop_array_weight: "find_prop q k = Inr EndArray \<Longrightarrow> 4 \<le> weight q"
  by (induction q k rule: find_prop.induct) (auto split: option.splits if_splits)

lemma props_weight_insert_index:
  "props_weight (insert_index n kv ps) = Suc (weight (snd kv)) + props_weight ps"
  by (induction ps) (auto split: option.splits)

lemma props_weight_update:
  "props_weight (AList.update k v ps) \<le> props_weight ps + Suc (weight v)"
  by (induction ps) auto

lemma props_weight_put: "props_weight (put kvs k v) \<le> props_weight kvs + Suc (weight v)"
  using props_weight_update [of k v kvs]
  by (auto simp: put_def props_weight_insert_index split: option.splits)

lemma weight_js_set: "weight (js_set ret k v) \<le> weight ret + Suc (weight v)"
proof (cases ret)
  case (JObj p kvs)
  then show ?thesis
    using props_weight_put [of kvs k v]
    by (cases p) (auto split: sum.splits chain_end.splits)
qed simp_all

lemma weight_foldl_set:
  "weight (foldl (\<lambda>ret (k, v). js_set ret (f k) v) ret ps) \<le> weight ret + props_weight ps"
proof (induction ps arbitrary: ret)
  case Nil
  then show ?case by simp
next
  case (Cons p ps)
  obtain k v where p: "p = (k, v)" by (cases p)
  have "weight (foldl (\<lambda>ret (k, v). js_set ret (f k) v) (js_set ret (f k) v) ps)
      \<le> weight (js_set ret (f k) v) + props_weight ps"
    by (rule Cons.IH)
  also have "weight (js_set ret (f k) v) \<le> weight ret + Suc (weight v)"
    by (rule weight_js_set)
  finally show ?case by (simp add: p)
qed

lemma set_insert_index: "set (insert_index n kv ps) = insert kv (set ps)"
  by (induction ps) (auto split: option.splits)

lemma keys_put: "fst ` set (put kvs k v) = insert k (fst ` set kvs)"
  by (auto simp: put_def set_insert_index dom_update split: option.splits)

lemma js_set_put: "k \<noteq> ''__proto__'' \<Longrightarrow> js_set (JObj p kvs) k v = JObj p (put kvs k v)"
  by simp

lemma foldl_set_put:
  "\<forall>k\<in>fst ` set ps. f k \<noteq> ''__proto__'' \<Longrightarrow>
     foldl (\<lambda>ret (k, v). js_set ret (f k) v) (JObj p kvs) ps
       = JObj p (foldl (\<lambda>ret (k, v). put ret (f k) v) kvs ps)"
proof (induction ps arbitrary: kvs)
  case Nil
  then show ?case by simp
next
  case (Cons a ps)
  then show ?case by (cases a) (simp del: js_set.simps add: js_set_put)
qed

lemma keys_foldl_put:
  "fst ` set (foldl (\<lambda>ret (k, v). put ret (f k) v) acc ps) = fst ` set acc \<union> f ` fst ` set ps"
proof (induction ps arbitrary: acc)
  case Nil
  then show ?case by simp
next
  case (Cons p ps)
  then show ?case by (cases p) (auto simp: keys_put)
qed

lemma sum_zip_chars:
  "length ks = length s \<Longrightarrow> props_weight (zip ks (map (\<lambda>c. JStr [c]) s)) = 2 * length s"
  by (induction ks s rule: list_induct2) simp_all

lemma sum_zip_elems:
  "length ks = length xs \<Longrightarrow> props_weight (zip ks xs) = (\<Sum>x\<leftarrow>xs. Suc (weight x))"
  by (induction ks xs rule: list_induct2) simp_all

lemma has_entries_cases:
  assumes "has_entries data"
  obtains (val) p kvs e where "data = JObj p kvs" and "read_entries data = EntriesValue e"
      and "truthy (Some e)" and "weight e + 3 \<le> weight data"
  | (inherited) p kvs where "data = JObj p kvs" and "read_entries data = EntriesMethod"
      and "7 \<le> weight data"
proof -
  have nk: "''entries'' \<in> named_keys" by (simp add: named_keys_def)
  from assms obtain p kvs where d: "data = JObj p kvs"
    using find_prop_named(1) [OF nk] by (cases data) (simp_all add: read_entries_def)
  show thesis
  proof (cases "read_entries data")
    case NoEntries
    with assms d show ?thesis by simp
  next
    case (EntriesValue e)
    then have "find_prop data ''entries'' = Inl e"
      by (simp add: read_entries_def split: sum.splits chain_end.splits)
    from find_prop_weight [OF this] d have "weight e + 3 \<le> weight data" by blast
    with assms d EntriesValue val show ?thesis by simp
  next
    case EntriesMethod
    then have f: "find_prop data ''entries'' = Inr EndArray"
      by (simp add: read_entries_def split: sum.splits chain_end.splits)
    have "7 \<le> weight data"
    proof (cases p)
      case None
      with f d show ?thesis by (simp split: option.splits)
    next
      case (Some q)
      with f d have "find_prop q ''entries'' = Inr EndArray" by (simp split: option.splits)
      from find_prop_array_weight [OF this] d Some show ?thesis by simp
    qed
    with d EntriesMethod inherited show ?thesis by simp
  qed
qed

lemma entries_ret_str:
  assumes "read_entries data = EntriesValue (JStr s)"
  shows "\<not> has_entries (entries_ret data)"
proof -
  let ?ps = "own_props (JStr s)"
  have no: "simplify_key k \<noteq> name"
    if "c \<in> set name" "c \<notin> set ''0123456789''" "k \<in> fst ` set ?ps" for name c k
  proof -
    from that(3) have "k \<in> set (index_keys (length s))" by (auto dest: set_zip_leftD)
    from index_key_no_letter(2) [OF this that(1,2)] show ?thesis .
  qed
  have "\<forall>k\<in>fst ` set ?ps. simplify_key k \<noteq> ''__proto__''"
  proof
    fix k
    assume k: "k \<in> fst ` set ?ps"
    show "simplify_key k \<noteq> ''__proto__''" by (rule no [of "CHR ''_''"]) (simp, simp, fact k)
  qed
  from foldl_set_put [OF this]
  have r: "entries_ret data = JPlain (foldl (\<lambda>ret (k, v). put ret (simplify_key k) v) [] ?ps)"
    by (simp add: entries_ret_def entry_props_def assms)
  have "''entries'' \<notin> simplify_key ` fst ` set ?ps"
  proof
    assume "''entries'' \<in> simplify_key ` fst ` set ?ps"
    then obtain k where e: "''entries'' = simplify_key k" and k: "k \<in> fst ` set ?ps"
      by (rule imageE)
    have "simplify_key k \<noteq> ''entries''" by (rule no [of "CHR ''e''"]) (simp, simp, fact k)
    with e show False by simp
  qed
  then have "''entries'' \<notin> fst ` set (foldl (\<lambda>ret (k, v). put ret (simplify_key k) v) [] ?ps)"
    unfolding keys_foldl_put by simp
  then have "map_of (foldl (\<lambda>ret (k, v). put ret (simplify_key k) v) [] ?ps) ''entries'' = None"
    by (simp add: map_of_eq_None_iff)
  then show ?thesis unfolding r by (simp add: read_entries_def)
qed

lemma entries_ret_smaller:
  assumes "has_entries data"
  shows "size_of (entries_ret data) < size_of data"
  using assms
proof (cases rule: has_entries_cases)
  case (val p kvs e)
  have w: "weight (entries_ret data) \<le> 2 + props_weight (own_props e)"
    using weight_foldl_set [of simplify_key "JPlain []" "own_props e"]
    by (simp add: entries_ret_def entry_props_def val(2))
  show ?thesis
  proof (cases e)
    case (JStr s)
    with val(3) have "0 < length s" by simp
    moreover have "\<not> has_entries (entries_ret data)"
      using val(2) unfolding JStr by (rule entries_ret_str)
    ultimately show ?thesis
      using w val(4) assms by (simp add: size_of_def JStr sum_zip_chars index_keys_def)
  next
    case (JArr xs)
    then show ?thesis
      using w val(4) by (simp add: size_of_def sum_zip_elems index_keys_def)
  next
    case (JObj q es)
    then show ?thesis using w val(4) by (simp add: size_of_def)
  qed (use w val(4) in \<open>simp_all add: size_of_def\<close>)
next
  case (inherited p kvs)
  then have "entries_ret data = JPlain []" by (simp add: entries_ret_def entry_props_def)
  with inherited(3) show ?thesis by (simp add: size_of_def read_entries_def)
qed

lemma props_weight_delete: "props_weight (AList.delete k kvs) \<le> props_weight kvs"
  by (induction kvs) auto

lemma weight_without_field: "weight (without_field key i) \<le> weight i"
  using props_weight_delete by (cases i) simp_all

lemma pivot_weight:
  "pivot ts key pre ret xs = Inr b \<Longrightarrow>
     weight b \<le> 2 + props_weight ret + (\<Sum>x\<leftarrow>xs. Suc (weight x))"
proof (induction xs arbitrary: ret)
  case Nil
  then show ?case by auto
next
  case (Cons i rest)
  let ?k = "(if str_truthy pre then the pre else []) @ field_text ts (read_prop i key)"
  from Cons.prems have "pivot ts key pre (put ret ?k (without_field key i)) rest = Inr b"
    by (simp split: if_splits)
  from Cons.IH [OF this] props_weight_put [of ret ?k "without_field key i"]
    weight_without_field [of key i]
  show ?case by simp
qed

lemma scaffold_item_weight:
  assumes "scaffold_item data keys = Some item" and "set keys \<subseteq> set keysToReduce"
  shows "weight item + 3 \<le> weight data"
  using assms
proof (induction keys)
  case Nil
  then show ?case by simp
next
  case (Cons key keys)
  have nk: "key \<in> named_keys" using Cons.prems(2) by (auto simp: named_keys_def)
  show ?case
  proof (cases "read_prop data key = Some item \<and> length (object_keys data) = 1")
    case True
    then have f: "find_prop data key = Inl item"
      by (simp add: read_prop_def split: sum.splits)
    then obtain p kvs where d: "data = JObj p kvs"
      using find_prop_named [OF nk] by (cases data) simp_all
    from find_prop_weight [OF f] d show ?thesis by blast
  next
    case False
    with Cons.prems(1) have "scaffold_item data keys = Some item"
      by (auto split: option.splits if_splits)
    with Cons.IH Cons.prems(2) show ?thesis by auto
  qed
qed

text \<open>
  The first statement that touches \<open>data\<close> reads a property of it, which raises on
  \<^verbatim>\<open>null\<close>. \<open>reduce_each\<close> is the \<^verbatim>\<open>forEach\<close> that pushes the reduced elements of an
  array, \<open>reduce_props\<close> the one that stores the reduced values of an object with
  \<^verbatim>\<open>ret[k] = reduceData(v, options)\<close>; the new object starts as \<^verbatim>\<open>{}\<close>.
\<close>

function reduceData :: "(json option \<Rightarrow> string) \<Rightarrow> json \<Rightarrow> catm option \<Rightarrow> error + json"
  and reduce_each :: "(json option \<Rightarrow> string) \<Rightarrow> json list \<Rightarrow> catm option
        \<Rightarrow> error + json list"
  and reduce_props :: "(json option \<Rightarrow> string) \<Rightarrow> json
        \<Rightarrow> (string \<times> json) list \<Rightarrow> catm option \<Rightarrow> error + json"
where
  "reduceData to_str data options =
     (if data = JNull then Inl TypeError
      else case scaffold_item data keysToReduce of
        Some item \<Rightarrow> reduceData to_str item options
      | None \<Rightarrow>
          if has_entries data
          then reduceData to_str (entries_ret data) options
          else (case data of
              JArr xs \<Rightarrow>
                (case options of
                   Some catm \<Rightarrow>
                     if str_truthy (keyName catm)
                     then (case convertArrayToMap to_str xs (the (keyName catm))
                                 (keyNamePrefix catm) of
                             Inl e \<Rightarrow> Inl e
                           | Inr m \<Rightarrow> reduceData to_str m options)
                     else map_sum id JArr (reduce_each to_str xs options)
                 | None \<Rightarrow> map_sum id JArr (reduce_each to_str xs options))
            | JObj p kvs \<Rightarrow> reduce_props to_str (JPlain []) kvs options
            | _ \<Rightarrow> Inr data))"
| "reduce_each to_str [] options = Inr []"
| "reduce_each to_str (i # rest) options =
     (case reduceData to_str i options of
        Inl e \<Rightarrow> Inl e
      | Inr r \<Rightarrow> map_sum id ((#) r) (reduce_each to_str rest options))"
| "reduce_props to_str ret [] options = Inr ret"
| "reduce_props to_str ret (kv # rest) options =
     (case reduceData to_str (snd kv) options of
        Inl e \<Rightarrow> Inl e
      | Inr r \<Rightarrow> reduce_props to_str (js_set ret (fst kv) r) rest options)"
  by pat_completeness auto
termination
proof (relation "measure (\<lambda>x. case x of
      Inl (ts, d, opts) \<Rightarrow> size_of d
    | Inr (Inl (ts, xs, opts)) \<Rightarrow> 1 + 2 * (\<Sum>x\<leftarrow>xs. Suc (weight x))
    | Inr (Inr (ts, ret, kvs, opts)) \<Rightarrow> 1 + 2 * props_weight kvs)", goal_cases)
  case (2 ts data opts)
  from entries_ret_smaller [OF 2(3)] show ?case by simp
next
  case (4 ts data opts xs c m)
  from 4 have "pivot ts (the (keyName c)) (keyNamePrefix c) [] xs = Inr m"
    by (simp add: convertArrayToMap_def)
  from pivot_weight [OF this] 4 show ?case by (simp add: size_of_def)
next
  case (7 ts data opts item)
  from scaffold_item_weight [OF 7(2)] show ?case by (simp add: size_of_def)
qed (simp_all add: size_of_def)

declare reduceData.simps [simp del]

subsection \<open>getDataByKey\<close>

text \<open>
  The walk can leave the data: through an inherited name it reaches a function of the
  engine, and through \<^verbatim>\<open>__proto__\<close> a prototype of the engine. \<^verbatim>\<open>Fun\<close> carries the name of
  the function.
\<close>

datatype rval = Val json | Fun string | ObjectPrototype | ArrayPrototype

text \<open>
  The names of the methods that \<^verbatim>\<open>Object.prototype\<close> and \<^verbatim>\<open>Array.prototype\<close> have. They belong
  to the engine, not to the source, and are a parameter.
\<close>

record engine =
  object_names :: "string list"
  array_names :: "string list"

text \<open>
  The sentinel is the string \<^verbatim>\<open>'missing key'\<close>.
\<close>

definition missing_key :: json where
  "missing_key = JStr ''missing key''"

text \<open>
  What the getter \<^verbatim>\<open>__proto__\<close> returns for an object or array.
\<close>

fun prototype_of :: "json \<Rightarrow> rval" where
  "prototype_of (JObj None kvs) = ObjectPrototype"
| "prototype_of (JObj (Some q) kvs) = Val q"
| "prototype_of (JArr xs) = ArrayPrototype"
| "prototype_of v = Val JNull"

text \<open>
  A read that the data on the chain does not answer is answered by the prototypes of the
  engine: \<^verbatim>\<open>__proto__\<close> gives the prototype of the receiver, the name of a method gives the
  method, and \<^verbatim>\<open>Array.prototype\<close>, an array itself, has a \<^verbatim>\<open>length\<close> of 0. \<open>None\<close>: the
  name is not there, so \<^verbatim>\<open>in\<close> is false.
\<close>

definition object_builtin :: "engine \<Rightarrow> rval \<Rightarrow> string \<Rightarrow> rval option" where
  "object_builtin E proto i =
     (if i = ''__proto__'' then Some proto
      else if i \<in> set (object_names E) then Some (Fun (''Object.prototype.'' @ i))
      else None)"

definition array_builtin :: "engine \<Rightarrow> rval \<Rightarrow> string \<Rightarrow> rval option" where
  "array_builtin E proto i =
     (if i = ''length'' then Some (Val (JNum 0))
      else if i \<in> set (array_names E) then Some (Fun (''Array.prototype.'' @ i))
      else object_builtin E proto i)"

fun builtin_read :: "engine \<Rightarrow> rval \<Rightarrow> chain_end \<Rightarrow> string \<Rightarrow> rval option" where
  "builtin_read E proto EndObject i = object_builtin E proto i"
| "builtin_read E proto EndArray i = array_builtin E proto i"
| "builtin_read E proto reached i = None"

text \<open>
  One round of the \<^verbatim>\<open>forEach\<close> over the segments: \<^verbatim>\<open>typeof ret === 'object'\<close> holds of objects,
  of arrays and of \<^verbatim>\<open>null\<close>, and the \<^verbatim>\<open>in\<close> operator raises on \<^verbatim>\<open>null\<close>. A string, a number, a
  boolean and a function give the sentinel.
\<close>

definition or_missing :: "rval option \<Rightarrow> rval" where
  "or_missing r = (case r of Some v \<Rightarrow> v | None \<Rightarrow> Val missing_key)"

definition object_step :: "engine \<Rightarrow> json \<Rightarrow> string \<Rightarrow> rval" where
  "object_step E ret i =
     (case find_prop ret i of
        Inl v \<Rightarrow> Val v
      | Inr reached \<Rightarrow> or_missing (builtin_read E (prototype_of ret) reached i))"

fun key_step :: "engine \<Rightarrow> rval \<Rightarrow> string \<Rightarrow> error + rval" where
  "key_step E (Val JNull) i = Inl TypeError"
| "key_step E (Val (JObj p kvs)) i = Inr (object_step E (JObj p kvs) i)"
| "key_step E (Val (JArr xs)) i = Inr (object_step E (JArr xs) i)"
| "key_step E (Val v) i = Inr (Val missing_key)"
| "key_step E (Fun f) i = Inr (Val missing_key)"
| "key_step E ObjectPrototype i = Inr (or_missing (builtin_read E (Val JNull) EndObject i))"
| "key_step E ArrayPrototype i = Inr (or_missing (builtin_read E ObjectPrototype EndArray i))"

fun key_walk :: "engine \<Rightarrow> rval \<Rightarrow> string list \<Rightarrow> error + rval" where
  "key_walk E ret [] = Inr ret"
| "key_walk E ret (i # keys) =
     (case key_step E ret i of Inl e \<Rightarrow> Inl e | Inr ret' \<Rightarrow> key_walk E ret' keys)"

text \<open>
  \<^verbatim>\<open>STATS_KEY_SEP\<close> (\<^verbatim>\<open>constants.js\<close>, not among the sources) is a parameter.
\<close>

definition getDataByKey :: "engine \<Rightarrow> string \<Rightarrow> json \<Rightarrow> string \<Rightarrow> error + rval" where
  "getDataByKey E STATS_KEY_SEP data key = key_walk E (Val data) (split STATS_KEY_SEP key)"

subsection \<open>filterDataByKeys\<close>

text \<open>
  The inner \<^verbatim>\<open>forEach\<close>: \<^verbatim>\<open>deleteKey\<close> starts true and becomes false at each entry of
  \<open>keys\<close> that the key includes.
\<close>

definition deleteKey :: "string list \<Rightarrow> string \<Rightarrow> bool" where
  "deleteKey keys k = foldl (\<lambda>d i. if str_includes k i then False else d) True keys"

text \<open>
  \<^verbatim>\<open>typeof data === 'object'\<close> holds of \<^verbatim>\<open>null\<close> as well, and \<^verbatim>\<open>Object.keys(null)\<close> raises.
  The source deletes and reassigns the own properties in place; the embedding returns the
  object that results. A kept property stays where it was, and the prototype is untouched.
\<close>

fun filterDataByKeys :: "json \<Rightarrow> string list \<Rightarrow> error + json"
  and filter_props :: "(string \<times> json) list \<Rightarrow> string list \<Rightarrow> error + (string \<times> json) list"
where
  "filterDataByKeys JNull keys = Inl TypeError"
| "filterDataByKeys (JArr xs) keys = Inr (JArr xs)"
| "filterDataByKeys (JObj p kvs) keys = map_sum id (JObj p) (filter_props kvs keys)"
| "filterDataByKeys (JBool b) keys = Inr (JBool b)"
| "filterDataByKeys (JNum n) keys = Inr (JNum n)"
| "filterDataByKeys (JStr s) keys = Inr (JStr s)"
| "filter_props [] keys = Inr []"
| "filter_props (kv # rest) keys =
     (if deleteKey keys (fst kv) then filter_props rest keys
      else (case filterDataByKeys (snd kv) keys of
              Inl e \<Rightarrow> Inl e
            | Inr r \<Rightarrow> map_sum id ((#) (fst kv, r)) (filter_props rest keys)))"

text \<open>
  The filter on what the walk returns: a function is no object, \<^verbatim>\<open>Array.prototype\<close> is an
  array, and \<^verbatim>\<open>Object.prototype\<close> has no enumerable property.
\<close>

fun filter_value :: "rval \<Rightarrow> string list \<Rightarrow> error + rval" where
  "filter_value (Val data) keys = map_sum id Val (filterDataByKeys data keys)"
| "filter_value other keys = Inr other"

subsection \<open>renameKeysInData\<close>

text \<open>
  An entry of \<open>patterns\<close> is a pattern, or an object with a pattern and an optional group.
  The regular expressions are those of the engine: \<open>rmatch p k\<close> stands for
  \<^verbatim>\<open>k.match(p)\<close>, \<open>None\<close> for no match and otherwise the array of the match, in which an
  element can be \<^verbatim>\<open>undefined\<close>.
\<close>

datatype 'p pattern_entry = Bare 'p | WithGroup 'p "nat option"

fun entry_pattern :: "'p pattern_entry \<Rightarrow> 'p" where
  "entry_pattern (Bare p) = p"
| "entry_pattern (WithGroup p g) = p"

fun entry_group :: "'p pattern_entry \<Rightarrow> nat" where
  "entry_group (Bare p) = 0"
| "entry_group (WithGroup p None) = 0"
| "entry_group (WithGroup p (Some g)) = g"

text \<open>
  \<^verbatim>\<open>checkForMatch[group]\<close>; beyond the array it is \<^verbatim>\<open>undefined\<close>.
\<close>

definition match_group :: "string option list \<Rightarrow> nat \<Rightarrow> string option" where
  "match_group m g = (if g < length m then m ! g else None)"

text \<open>
  One round of the loop over the patterns, on the pair of \<^verbatim>\<open>renameKey\<close> and \<^verbatim>\<open>renamedKey\<close>.
\<close>

definition rename_step :: "('p \<Rightarrow> string \<Rightarrow> string option list option) \<Rightarrow> string
    \<Rightarrow> bool \<times> string option \<Rightarrow> string \<times> 'p pattern_entry \<Rightarrow> bool \<times> string option" where
  "rename_step rmatch k st pe =
     (if str_includes k (fst pe)
      then (case rmatch (entry_pattern (snd pe)) k of
              Some checkForMatch \<Rightarrow> (True, match_group checkForMatch (entry_group (snd pe)))
            | None \<Rightarrow> st)
      else st)"

text \<open>
  A property stored under \<^verbatim>\<open>undefined\<close> has the key \<^verbatim>\<open>"undefined"\<close>.
\<close>

definition property_name :: "string option \<Rightarrow> string" where
  "property_name k = (case k of None \<Rightarrow> ''undefined'' | Some s \<Rightarrow> s)"

definition new_key :: "('p \<Rightarrow> string \<Rightarrow> string option list option)
    \<Rightarrow> (string \<times> 'p pattern_entry) list \<Rightarrow> string \<Rightarrow> string" where
  "new_key rmatch patterns k =
     (case foldl (rename_step rmatch k) (False, None) patterns of
        (True, renamedKey) \<Rightarrow> property_name renamedKey
      | (False, _) \<Rightarrow> k)"

text \<open>
  Only objects that are not arrays are visited; \<^verbatim>\<open>Object.keys(null)\<close> raises. The result is
  a new object, filled by the assignments of lines 132 and 134. Everything else is returned
  as it is.
\<close>

fun renameKeysInData :: "('p \<Rightarrow> string \<Rightarrow> string option list option)
      \<Rightarrow> json \<Rightarrow> (string \<times> 'p pattern_entry) list \<Rightarrow> error + json"
  and rename_props :: "('p \<Rightarrow> string \<Rightarrow> string option list option)
      \<Rightarrow> json \<Rightarrow> (string \<times> json) list
      \<Rightarrow> (string \<times> 'p pattern_entry) list \<Rightarrow> error + json"
where
  "renameKeysInData rmatch JNull patterns = Inl TypeError"
| "renameKeysInData rmatch (JObj p kvs) patterns = rename_props rmatch (JPlain []) kvs patterns"
| "renameKeysInData rmatch (JArr xs) patterns = Inr (JArr xs)"
| "renameKeysInData rmatch (JBool b) patterns = Inr (JBool b)"
| "renameKeysInData rmatch (JNum n) patterns = Inr (JNum n)"
| "renameKeysInData rmatch (JStr s) patterns = Inr (JStr s)"
| "rename_props rmatch ret [] patterns = Inr ret"
| "rename_props rmatch ret (kv # rest) patterns =
     (case renameKeysInData rmatch (snd kv) patterns of
        Inl e \<Rightarrow> Inl e
      | Inr r \<Rightarrow>
          rename_props rmatch (js_set ret (new_key rmatch patterns (fst kv)) r) rest patterns)"

text \<open>
  The renamer on what the walk returns: of \<^verbatim>\<open>Object.prototype\<close>, which has no enumerable
  property, it returns a new empty object.
\<close>

fun rename_value :: "('p \<Rightarrow> string \<Rightarrow> string option list option)
      \<Rightarrow> rval \<Rightarrow> (string \<times> 'p pattern_entry) list \<Rightarrow> error + rval" where
  "rename_value rmatch (Val data) patterns = map_sum id Val (renameKeysInData rmatch data patterns)"
| "rename_value rmatch ObjectPrototype patterns = Inr (Val (JPlain []))"
| "rename_value rmatch other patterns = Inr other"

subsection \<open>runCustomFunction\<close>

text \<open>
  The loop over the optional arguments raises at a key \<^verbatim>\<open>data\<close>, outside the \<^verbatim>\<open>try\<close>. The
  argument record is \<^verbatim>\<open>data\<close> together with the object of the other arguments, filled by the
  assignments \<^verbatim>\<open>args[k] = optionalArgs[k]\<close>. The registry \<^verbatim>\<open>normalizeUtil\<close> (not among the
  sources) is a parameter: a name has a function or none, and a function acts on a state
  \<open>'w\<close> of its own, so that whether it ran can be told. What it raises, and a name
  without a function, is wrapped.
\<close>

fun add_args :: "json \<Rightarrow> (string \<times> json) list \<Rightarrow> error + json" where
  "add_args args [] = Inr args"
| "add_args args (kv # rest) =
     (if fst kv = ''data'' then Inl NamedArgumentNotAllowed
      else add_args (js_set args (fst kv) (snd kv)) rest)"

record custom_options =
  func :: string
  args :: "json option"

definition runCustomFunction ::
  "(string \<Rightarrow> (rval \<Rightarrow> json \<Rightarrow> 'w \<Rightarrow> (error + rval) \<times> 'w) option)
    \<Rightarrow> rval \<Rightarrow> custom_options \<Rightarrow> 'w \<Rightarrow> (error + rval) \<times> 'w" where
  "runCustomFunction normalizeUtil data options w =
     (case (if truthy (args options) \<and> is_object (the (args options))
            then add_args (JPlain []) (own_props (the (args options)))
            else Inr (JPlain [])) of
        Inl e \<Rightarrow> (Inl e, w)
      | Inr named \<Rightarrow>
          (case normalizeUtil (func options) of
             None \<Rightarrow> (Inl (RunCustomFunctionFailed TypeError), w)
           | Some f \<Rightarrow>
               (case f data named w of
                  (Inl e, w') \<Rightarrow> (Inl (RunCustomFunctionFailed e), w')
                | (Inr r, w') \<Rightarrow> (Inr r, w'))))"

subsection \<open>normalizeData\<close>

text \<open>
  The stages in the order of the source; an option that is absent or falsy leaves its stage
  out.
\<close>

record rcf =
  rcf_name :: string
  rcf_args :: "json option"

record 'p options =
  opt_key :: "string option"
  opt_filterByKeys :: "string list option"
  opt_renameKeysByPattern :: "(string \<times> 'p pattern_entry) list option"
  opt_convertArrayToMap :: "catm option"
  opt_runCustomFunction :: "rcf option"

definition normalizeData ::
  "(json option \<Rightarrow> string) \<Rightarrow> engine \<Rightarrow> string \<Rightarrow> ('p \<Rightarrow> string \<Rightarrow> string option list option)
    \<Rightarrow> (string \<Rightarrow> (rval \<Rightarrow> json \<Rightarrow> 'w \<Rightarrow> (error + rval) \<times> 'w) option)
    \<Rightarrow> json \<Rightarrow> 'p options \<Rightarrow> 'w \<Rightarrow> (error + rval) \<times> 'w" where
  "normalizeData to_str E STATS_KEY_SEP rmatch normalizeUtil data options w =
     (case reduceData to_str data (opt_convertArrayToMap options) of
        Inl e \<Rightarrow> (Inl e, w)
      | Inr r1 \<Rightarrow>
     (case (if str_truthy (opt_key options)
            then getDataByKey E STATS_KEY_SEP r1 (the (opt_key options)) else Inr (Val r1)) of
        Inl e \<Rightarrow> (Inl e, w)
      | Inr r2 \<Rightarrow>
     (case (case opt_filterByKeys options of
              Some keys \<Rightarrow> filter_value r2 keys | None \<Rightarrow> Inr r2) of
        Inl e \<Rightarrow> (Inl e, w)
      | Inr r3 \<Rightarrow>
     (case (case opt_renameKeysByPattern options of
              Some patterns \<Rightarrow> rename_value rmatch r3 patterns | None \<Rightarrow> Inr r3) of
        Inl e \<Rightarrow> (Inl e, w)
      | Inr r4 \<Rightarrow>
     (case opt_runCustomFunction options of
        Some c \<Rightarrow>
          runCustomFunction normalizeUtil r4 \<lparr>func = rcf_name c, args = rcf_args c\<rparr> w
      | None \<Rightarrow> (Inr r4, w))))))"

definition no_options :: "'p options" where
  "no_options = \<lparr>opt_key = None, opt_filterByKeys = None, opt_renameKeysByPattern = None,
     opt_convertArrayToMap = None, opt_runCustomFunction = None\<rparr>"

text \<open>
  The method names of the two prototypes in Node.js, for the examples.
\<close>

definition node_engine :: engine where
  "node_engine = \<lparr>
     object_names = [''constructor'', ''__defineGetter__'', ''__defineSetter__'',
       ''hasOwnProperty'', ''__lookupGetter__'', ''__lookupSetter__'', ''isPrototypeOf'',
       ''propertyIsEnumerable'', ''toString'', ''valueOf'', ''toLocaleString''],
     array_names = [''constructor'', ''concat'', ''copyWithin'', ''fill'', ''find'',
       ''findIndex'', ''lastIndexOf'', ''pop'', ''push'', ''reverse'', ''shift'', ''unshift'',
       ''slice'', ''sort'', ''splice'', ''includes'', ''indexOf'', ''join'', ''keys'',
       ''entries'', ''values'', ''forEach'', ''filter'', ''flat'', ''flatMap'', ''map'',
       ''every'', ''some'', ''reduce'', ''reduceRight'', ''toLocaleString'', ''toString'']\<rparr>"

subsection \<open>Predicates on values\<close>

text \<open>
  A chain of wrappers, one key each, around a value.
\<close>

fun wrap :: "string list \<Rightarrow> json \<Rightarrow> json" where
  "wrap [] v = v"
| "wrap (k # ks) v = JPlain [(k, wrap ks v)]"

text \<open>
  No \<^verbatim>\<open>null\<close> anywhere in the value, its prototypes included.
\<close>

fun null_free :: "json \<Rightarrow> bool" where
  "null_free JNull = False"
| "null_free (JArr xs) = (\<forall>x\<in>set xs. null_free x)"
| "null_free (JObj p kvs) =
     ((case p of None \<Rightarrow> True | Some q \<Rightarrow> null_free q) \<and> (\<forall>kv\<in>set kvs. null_free (snd kv)))"
| "null_free v = True"







text \<open>
  Whether the options ask for the pivot of arrays.
\<close>

definition catm_on :: "catm option \<Rightarrow> bool" where
  "catm_on options = (case options of Some catm \<Rightarrow> str_truthy (keyName catm) | None \<Rightarrow> False)"

text \<open>
  A result of the walk that is not \<^verbatim>\<open>null\<close> and holds none.
\<close>

fun holds_no_null :: "rval \<Rightarrow> bool" where
  "holds_no_null (Val v) = null_free v"
| "holds_no_null r = True"

section \<open>Properties of the reducer\<close>

subsection \<open>The branches of reduceData\<close>

lemma reduceData_null: "reduceData ts JNull opts = Inl TypeError"
  by (subst reduceData.simps) simp

lemma read_prop_plain: "read_prop (JPlain kvs) k = map_of kvs k"
  by (simp add: read_prop_def split: option.splits)

lemma scaffold_item_Some:
  "scaffold_item (JPlain kvs) keys = Some item \<Longrightarrow> \<exists>k\<in>set keys. kvs = [(k, item)]"
proof (induction keys)
  case Nil
  then show ?case by simp
next
  case (Cons key keys)
  show ?case
  proof (cases "map_of kvs key = Some item \<and> length kvs = 1")
    case True
    then obtain kv where "kvs = [kv]" by (cases kvs) simp_all
    with True have "kvs = [(key, item)]" by (cases kv) (simp split: if_splits)
    then show ?thesis by simp
  next
    case False
    with Cons.prems have "scaffold_item (JPlain kvs) keys = Some item"
      by (auto simp: read_prop_plain object_keys_def split: option.splits if_splits)
    with Cons.IH show ?thesis by auto
  qed
qed

lemma scaffold_item_single_aux:
  "scaffold_item (JPlain [(k, v)]) keys = (if k \<in> set keys then Some v else None)"
  by (induction keys) (auto simp: object_keys_def read_prop_plain)

lemma scaffold_item_single:
  "scaffold_item (JPlain [(k, v)]) keysToReduce = (if k \<in> set keysToReduce then Some v else None)"
  by (rule scaffold_item_single_aux)

lemma scaffold_item_plain:
  "scaffold_item (JPlain kvs) keysToReduce \<noteq> None
     \<longleftrightarrow> (\<exists>k v. kvs = [(k, v)] \<and> k \<in> set keysToReduce)"
  using scaffold_item_Some [of kvs keysToReduce] scaffold_item_single by fastforce

lemma read_prop_nonobj:
  assumes "\<And>p kvs. data \<noteq> JObj p kvs" and "key \<in> named_keys"
  shows "read_prop data key = None"
proof (cases data)
  case (JStr s)
  then show ?thesis by (simp add: read_prop_def find_prop_named(1) [OF assms(2)] del: find_prop.simps)
next
  case (JArr xs)
  then show ?thesis by (simp add: read_prop_def find_prop_named(2) [OF assms(2)] del: find_prop.simps)
next
  case (JObj p kvs)
  with assms(1) show ?thesis by blast
qed (simp_all add: read_prop_def)

lemma scaffold_item_nonobj_aux:
  assumes "\<And>p kvs. data \<noteq> JObj p kvs"
  shows "set keys \<subseteq> set keysToReduce \<Longrightarrow> scaffold_item data keys = None"
proof (induction keys)
  case Nil
  then show ?case by simp
next
  case (Cons key keys)
  then have nk: "key \<in> named_keys" by (auto simp: named_keys_def)
  from read_prop_nonobj [OF assms nk] Cons show ?case by simp
qed

lemma scaffold_item_nonobj:
  "(\<And>p kvs. data \<noteq> JObj p kvs) \<Longrightarrow> scaffold_item data keysToReduce = None"
  by (rule scaffold_item_nonobj_aux) simp_all

lemma has_entries_plain: "has_entries (JPlain kvs) = truthy (map_of kvs ''entries'')"
  by (simp add: read_entries_def split: option.splits)

lemma has_entries_nonobj:
  assumes "\<And>p kvs. data \<noteq> JObj p kvs"
  shows "\<not> has_entries data"
proof
  assume "has_entries data"
  then obtain p kvs where "data = JObj p kvs" by (cases rule: has_entries_cases) blast+
  with assms show False by blast
qed

lemma reduceData_unwrap:
  "k \<in> set keysToReduce \<Longrightarrow> reduceData ts (JPlain [(k, v)]) opts = reduceData ts v opts"
  by (subst reduceData.simps) (simp add: scaffold_item_single)

lemma reduceData_entries:
  assumes "scaffold_item data keysToReduce = None" and "has_entries data"
  shows "reduceData ts data opts = reduceData ts (entries_ret data) opts"
proof -
  from assms(2) have "data \<noteq> JNull" by (auto simp: read_entries_def)
  with assms show ?thesis by (subst reduceData.simps) simp
qed

lemma reduceData_generic:
  assumes "scaffold_item (JObj p kvs) keysToReduce = None" and "\<not> has_entries (JObj p kvs)"
  shows "reduceData ts (JObj p kvs) opts = reduce_props ts (JPlain []) kvs opts"
  using assms by (subst reduceData.simps) simp

lemma reduceData_JBool: "reduceData ts (JBool b) opts = Inr (JBool b)"
  by (subst reduceData.simps) (simp add: scaffold_item_nonobj read_entries_def)

lemma reduceData_JNum: "reduceData ts (JNum n) opts = Inr (JNum n)"
  by (subst reduceData.simps) (simp add: scaffold_item_nonobj read_entries_def)

lemma reduceData_JStr: "reduceData ts (JStr s) opts = Inr (JStr s)"
  by (subst reduceData.simps) (simp add: scaffold_item_nonobj has_entries_nonobj del: has_entries.simps)

lemma reduceData_JArr:
  "reduceData ts (JArr xs) opts =
     (if catm_on opts
      then (case convertArrayToMap ts xs (the (keyName (the opts))) (keyNamePrefix (the opts)) of
              Inl e \<Rightarrow> Inl e | Inr m \<Rightarrow> reduceData ts m opts)
      else map_sum id JArr (reduce_each ts xs opts))"
  by (subst reduceData.simps) (simp add: scaffold_item_nonobj catm_on_def split: option.splits)

lemma reduce_each_iff:
  "reduce_each ts xs opts = Inr rs \<longleftrightarrow> list_all2 (\<lambda>x r. reduceData ts x opts = Inr r) xs rs"
proof (induction xs arbitrary: rs)
  case Nil
  then show ?case by auto
next
  case (Cons x xs)
  show ?case
  proof (cases "reduceData ts x opts")
    case (Inl e)
    then show ?thesis by (auto simp: list_all2_Cons1)
  next
    case (Inr r)
    show ?thesis
    proof (cases "reduce_each ts xs opts")
      case (Inl e)
      with Inr Cons.IH show ?thesis by (auto simp: list_all2_Cons1)
    next
      case r2: (Inr rs')
      with Inr Cons.IH show ?thesis by (auto simp: list_all2_Cons1)
    qed
  qed
qed

lemma reduce_props_put:
  "''__proto__'' \<notin> fst ` set kvs \<Longrightarrow>
     reduce_props ts (JObj p ret) kvs opts
       = map_sum id (\<lambda>rs. JObj p (foldl (\<lambda>ret (k, r). put ret k r) ret (zip (map fst kvs) rs)))
           (reduce_each ts (map snd kvs) opts)"
proof (induction kvs arbitrary: ret)
  case Nil
  then show ?case by simp
next
  case (Cons kv kvs)
  obtain k v where kv: "kv = (k, v)" by (cases kv)
  from Cons.prems have k: "k \<noteq> ''__proto__''" and rest: "''__proto__'' \<notin> fst ` set kvs"
    by (auto simp: kv)
  show ?case
  proof (cases "reduceData ts v opts")
    case (Inl e)
    then show ?thesis by (simp add: kv)
  next
    case (Inr r)
    from Cons.IH [OF rest, of "put ret k r"] Inr k show ?thesis
      by (cases "reduce_each ts (map snd kvs) opts") (simp_all add: kv)
  qed
qed

subsection \<open>Objects built one property at a time\<close>

lemma map_of_insert_index:
  "fst kv \<notin> fst ` set ps \<Longrightarrow> map_of (insert_index n kv ps) = (map_of ps)(fst kv \<mapsto> snd kv)"
proof (induction ps)
  case Nil
  then show ?case by simp
next
  case (Cons a ps)
  then show ?case by (cases a; cases kv) (auto split: option.splits simp: fun_upd_twist)
qed

lemma map_of_put: "map_of (put ps k v) = (map_of ps)(k \<mapsto> v)"
proof (cases "k \<in> set (map fst ps)")
  case True
  then show ?thesis by (simp add: put_def update_conv')
next
  case False
  then have "map_of ps k = None" by (simp add: map_of_eq_None_iff)
  then have "map_of (ps @ [(k, v)]) = (map_of ps)(k \<mapsto> v)"
    by (auto simp: map_add_def fun_eq_iff split: option.splits)
  with False map_of_insert_index [of "(k, v)" ps] show ?thesis
    by (simp add: put_def split: option.splits)
qed

lemma distinct_insert_index:
  "fst kv \<notin> fst ` set ps \<Longrightarrow> distinct (map fst ps) \<Longrightarrow> distinct (map fst (insert_index n kv ps))"
  by (induction ps) (auto simp: set_insert_index split: option.splits)

lemma distinct_put: "distinct (map fst ps) \<Longrightarrow> distinct (map fst (put ps k v))"
  by (auto simp: put_def distinct_update distinct_insert_index split: option.splits)

lemma distinct_foldl_put:
  "distinct (map fst acc) \<Longrightarrow> distinct (map fst (foldl (\<lambda>ret (k, v). put ret (f k) v) acc ps))"
proof (induction ps arbitrary: acc)
  case Nil
  then show ?case by simp
next
  case (Cons a ps)
  then show ?case by (cases a) (simp add: distinct_put)
qed

lemma map_of_foldl_put:
  "map_of (foldl (\<lambda>ret (k, v). put ret k v) acc ps) = map_of (rev ps @ acc)"
proof (induction ps arbitrary: acc)
  case Nil
  then show ?case by simp
next
  case (Cons a ps)
  obtain k v where a: "a = (k, v)" by (cases a)
  have "map_of (put acc k v) = map_of ((k, v) # acc)" by (simp add: map_of_put)
  then have "map_of (rev ps @ put acc k v) = map_of (rev ps @ (k, v) # acc)"
    by (simp add: map_of_append)
  with Cons.IH [of "put acc k v"] show ?case by (simp add: a)
qed

lemma map_of_rev_distinct: "distinct (map fst ps) \<Longrightarrow> map_of (rev ps) = map_of ps"
  by (rule map_of_inject_set [THEN iffD2]) (simp_all add: rev_map [symmetric])

lemma put_Nil: "put [] k v = [(k, v)]"
  by (simp add: put_def split: option.splits)

lemma reduceData_single_generic:
  assumes "k \<notin> set keysToReduce" and "\<not> (k = ''entries'' \<and> truthy (Some v))"
    and "k \<noteq> ''__proto__''"
  shows "reduceData ts (JPlain [(k, v)]) opts
           = map_sum id (\<lambda>r. JPlain [(k, r)]) (reduceData ts v opts)"
proof -
  from assms(1) have sc: "scaffold_item (JPlain [(k, v)]) keysToReduce = None"
    by (simp add: scaffold_item_single)
  from assms(2) have "\<not> has_entries (JPlain [(k, v)])" unfolding has_entries_plain by auto
  from reduceData_generic [OF sc this, of ts opts] assms(3) show ?thesis
    by (cases "reduceData ts v opts") (simp_all add: put_Nil)
qed

lemma reduceData_wrap:
  "set ks \<subseteq> set keysToReduce \<Longrightarrow> reduceData ts (wrap ks v) opts = reduceData ts v opts"
  by (induction ks) (simp_all add: reduceData_unwrap)

lemma entries_ret_plain:
  assumes "map_of kvs ''entries'' = Some e"
    and "\<forall>k\<in>fst ` set (own_props e). simplify_key k \<noteq> ''__proto__''"
  shows "entries_ret (JPlain kvs)
           = JPlain (foldl (\<lambda>ret (k, v). put ret (simplify_key k) v) [] (own_props e))"
  using foldl_set_put [OF assms(2), of None "[]"] assms(1)
  by (simp add: entries_ret_def entry_props_def read_entries_def)

lemma reduceData_generic_plain:
  assumes "\<not> (\<exists>k v. kvs = [(k, v)] \<and> k \<in> set keysToReduce)"
    and "\<not> truthy (map_of kvs ''entries'')"
    and "''__proto__'' \<notin> fst ` set kvs"
  shows "reduceData ts (JPlain kvs) opts
       = map_sum id (\<lambda>rs. JPlain (foldl (\<lambda>ret (k, r). put ret k r) [] (zip (map fst kvs) rs)))
           (reduce_each ts (map snd kvs) opts)"
proof -
  from assms(1) have sc: "scaffold_item (JPlain kvs) keysToReduce = None"
    using scaffold_item_plain [of kvs] by blast
  from assms(2) have "\<not> has_entries (JPlain kvs)" unfolding has_entries_plain .
  from reduceData_generic [OF sc this, of ts opts] reduce_props_put [OF assms(3), of ts None "[]" opts]
  show ?thesis by simp
qed

subsection \<open>Worked examples\<close>

lemma reduce_foo_example:
  "reduceData to_str
     (JPlain [(''entries'',
        JPlain [(''https://localhost/mgmt/tm/sys/foo'', JPlain [(''value'', JNum 1)])])])
     None
   = Inr (JPlain [(''sys/foo'', JNum 1)])"
  by code_simp

lemma reduce_tmm_example:
  "reduceData to_str
     (JPlain [(''entries'', JPlain [(''https://localhost/mgmt/tm/sys/tmm-info/0.0/stats'',
        JPlain [(''nestedStats'', JPlain [(''entries'',
          JPlain [(''oneMinAverageSystem'', JPlain [(''value'', JNum 5)])])])])])])
     None
   = Inr (JPlain [(''sys/tmm-info/0.0/stats'', JPlain [(''oneMinAverageSystem'', JNum 5)])])"
  by code_simp

lemma reduce_pivot_example:
  "reduceData to_str
     (JArr [JPlain [(''name'', JStr ''a''), (''value'', JNum 1)],
            JPlain [(''name'', JStr ''b''), (''value'', JNum 2)]])
     (Some \<lparr>keyName = Some ''name'', keyNamePrefix = None\<rparr>)
   = Inr (JPlain [(''a'', JNum 1), (''b'', JNum 2)])"
  by code_simp

text \<open>
  The key \<^verbatim>\<open>__proto__\<close> and the order of the keys: a value stored under \<^verbatim>\<open>__proto__\<close>
  becomes the prototype when it is an object and is dropped when it is a number; the
  prototype of an \<^verbatim>\<open>entries\<close> object is read like a property; and a key that is an array
  index is enumerated before the others.
\<close>

lemma reduce_proto_examples:
  "reduceData to_str (JPlain [(''__proto__'', JPlain [(''value'', JNum 1)]), (''a'', JNum 2)]) None
     = Inr (JPlain [(''a'', JNum 2)])"
  "reduceData to_str (JPlain [(''__proto__'', JNum 5)]) None = Inr (JPlain [])"
  "reduceData to_str
     (JPlain [(''entries'', JPlain [(''__proto__'', JPlain [(''entries'', JPlain [(''k'', JNum 1)])])])])
     None
     = Inr (JPlain [(''k'', JNum 1)])"
  "reduceData to_str (JPlain [(''entries'', JPlain [(''a7'', JNum 1), (''mgmt/tm/7'', JNum 2)])]) None
     = Inr (JPlain [(''7'', JNum 2), (''a7'', JNum 1)])"
  by code_simp+

text \<open>
  C1, as the spec has it: reducing
  \<^verbatim>\<open>{"entries": {"https://localhost/mgmt/tm/sys/foo": {"value": 1}}}\<close> gives
  \<^verbatim>\<open>{"foo": 1}\<close>, and normalizing the \<^verbatim>\<open>tmm-info\<close> payload with empty options gives
  \<^verbatim>\<open>{"tmm-info/0.0/stats": {"oneMinAverageSystem": 5}}\<close>. Neither holds: the source removes
  \<^verbatim>\<open>https://localhost/\<close> and \<^verbatim>\<open>mgmt/tm/\<close> only, so the segment \<^verbatim>\<open>sys/\<close> stays in the key.
\<close>

theorem C1_spec_examples_fail:
  "reduceData (\<lambda>v. ''undefined'')
     (JPlain [(''entries'',
        JPlain [(''https://localhost/mgmt/tm/sys/foo'', JPlain [(''value'', JNum 1)])])])
     None
   = Inr (JPlain [(''sys/foo'', JNum 1)])
   \<and> reduceData (\<lambda>v. ''undefined'')
     (JPlain [(''entries'',
        JPlain [(''https://localhost/mgmt/tm/sys/foo'', JPlain [(''value'', JNum 1)])])])
     None
   \<noteq> Inr (JPlain [(''foo'', JNum 1)])
   \<and> fst (normalizeData (\<lambda>v. ''undefined'') node_engine ''::'' (\<lambda>(p :: unit) k. None) (\<lambda>n. None)
     (JPlain [(''entries'', JPlain [(''https://localhost/mgmt/tm/sys/tmm-info/0.0/stats'',
        JPlain [(''nestedStats'', JPlain [(''entries'',
          JPlain [(''oneMinAverageSystem'', JPlain [(''value'', JNum 5)])])])])])])
     no_options ())
   \<noteq> Inr (Val (JPlain [(''tmm-info/0.0/stats'', JPlain [(''oneMinAverageSystem'', JNum 5)])]))"
  by (simp add: normalizeData_def no_options_def reduce_foo_example reduce_tmm_example)

text \<open>
  C1, amended: reducing an entries container is reducing the mapping of its entries under
  their simplified keys, where a key loses its first \<^verbatim>\<open>https://localhost/\<close> and then its
  first \<^verbatim>\<open>mgmt/tm/\<close>, so a key that starts with both keeps exactly what follows them; this
  for a container as parsed none of whose simplified keys is \<^verbatim>\<open>__proto__\<close>. Reducing
  \<^verbatim>\<open>{"entries": {"https://localhost/mgmt/tm/sys/foo": {"value": 1}}}\<close> gives
  \<^verbatim>\<open>{"sys/foo": 1}\<close>, and normalizing the \<^verbatim>\<open>tmm-info\<close> payload with empty options gives
  \<^verbatim>\<open>{"sys/tmm-info/0.0/stats": {"oneMinAverageSystem": 5}}\<close>.
\<close>

theorem C1_entries_keys_simplified:
  "(\<not> (\<exists>k' v'. kvs = [(k', v')] \<and> k' \<in> set keysToReduce)
      \<and> map_of kvs ''entries'' = Some (JObj q es)
      \<and> (\<forall>k\<in>fst ` set es. simplify_key k \<noteq> ''__proto__'') \<longrightarrow>
      reduceData to_str (JPlain kvs) options
        = reduceData to_str
            (JPlain (foldl (\<lambda>ret (k, v). put ret (simplify_key k) v) [] es)) options)
   \<and> simplify_key (''https://localhost/'' @ ''mgmt/tm/'' @ k) = k
   \<and> reduceData to_str
     (JPlain [(''entries'',
        JPlain [(''https://localhost/mgmt/tm/sys/foo'', JPlain [(''value'', JNum 1)])])])
     None
   = Inr (JPlain [(''sys/foo'', JNum 1)])
   \<and> normalizeData to_str E sep rmatch normalizeUtil
     (JPlain [(''entries'', JPlain [(''https://localhost/mgmt/tm/sys/tmm-info/0.0/stats'',
        JPlain [(''nestedStats'', JPlain [(''entries'',
          JPlain [(''oneMinAverageSystem'', JPlain [(''value'', JNum 5)])])])])])])
     no_options w
   = (Inr (Val (JPlain [(''sys/tmm-info/0.0/stats'', JPlain [(''oneMinAverageSystem'', JNum 5)])])),
      w)"
proof -
  have "reduceData to_str (JPlain kvs) options
        = reduceData to_str
            (JPlain (foldl (\<lambda>ret (k, v). put ret (simplify_key k) v) [] es)) options"
    if "\<not> (\<exists>k' v'. kvs = [(k', v')] \<and> k' \<in> set keysToReduce)"
      and "map_of kvs ''entries'' = Some (JObj q es)"
      and "\<forall>k\<in>fst ` set es. simplify_key k \<noteq> ''__proto__''"
  proof -
    from that(1) have sc: "scaffold_item (JPlain kvs) keysToReduce = None"
      using scaffold_item_plain [of kvs] by blast
    from that(2) have "has_entries (JPlain kvs)" unfolding has_entries_plain by simp
    from reduceData_entries [OF sc this] entries_ret_plain [OF that(2)] that(3)
    show ?thesis by simp
  qed
  then show ?thesis
    by (simp add: simplify_key_def normalizeData_def no_options_def
        reduce_foo_example reduce_tmm_example)
qed

theorem C1_entries_keys_simplified_witness:
  "reduceData (\<lambda>v. ''undefined'')
     (JPlain [(''entries'', JPlain [(''https://localhost/mgmt/tm/sys/foo'', JNum 1),
        (''mgmt/tm/sys/bar'', JNum 2)]), (''kind'', JStr ''stats'')])
     None
   = Inr (JPlain [(''sys/foo'', JNum 1), (''sys/bar'', JNum 2)])"
proof -
  have k: "simplify_key ''https://localhost/mgmt/tm/sys/foo'' = ''sys/foo''"
    "simplify_key ''mgmt/tm/sys/bar'' = ''sys/bar''"
    by code_simp+
  have p: "put [] ''sys/foo'' (JNum 1) = [(''sys/foo'', JNum 1)]"
    "put [(''sys/foo'', JNum 1)] ''sys/bar'' (JNum 2) = [(''sys/foo'', JNum 1), (''sys/bar'', JNum 2)]"
    by code_simp+
  have r: "reduceData (\<lambda>v. ''undefined'') (JPlain [(''sys/foo'', JNum 1), (''sys/bar'', JNum 2)]) None
    = Inr (JPlain [(''sys/foo'', JNum 1), (''sys/bar'', JNum 2)])"
    by code_simp
  let ?es = "[(''https://localhost/mgmt/tm/sys/foo'', JNum 1), (''mgmt/tm/sys/bar'', JNum 2)]"
  let ?kvs = "[(''entries'', JPlain ?es), (''kind'', JStr ''stats'')]"
  have "\<not> (\<exists>k' v'. ?kvs = [(k', v')] \<and> k' \<in> set keysToReduce)
      \<and> map_of ?kvs ''entries'' = Some (JPlain ?es)
      \<and> (\<forall>k\<in>fst ` set ?es. simplify_key k \<noteq> ''__proto__'') \<longrightarrow>
      reduceData (\<lambda>v. ''undefined'') (JPlain ?kvs) None
        = reduceData (\<lambda>v. ''undefined'')
            (JPlain (foldl (\<lambda>ret (k, v). put ret (simplify_key k) v) [] ?es)) None"
    by (rule C1_entries_keys_simplified [THEN conjunct1])
  then show ?thesis by (simp add: k p r)
qed

text \<open>
  C2 says that reducing twice is reducing once. The source copies every property with
  \<^verbatim>\<open>ret[k] = reduceData(v, options)\<close> (line 195, under the comment "simply include and then
  recurse"), and for the key \<^verbatim>\<open>__proto__\<close> that assignment installs the value as the
  prototype of the result instead of including it. The scaffold test of the next reduction
  reads \<^verbatim>\<open>data[keysToReduce[i]]\<close> (line 159) through that prototype: the reduction of
  \<^verbatim>\<open>{"a": 1, "__proto__": {"value": 7, "z": 0}}\<close> has the one key \<^verbatim>\<open>a\<close> and inherits
  \<^verbatim>\<open>value\<close>, so reducing it again gives \<^verbatim>\<open>7\<close>.
\<close>

theorem C2_reduce_twice_differs:
  "reduceData to_str
     (JPlain [(''a'', JNum 1), (''__proto__'', JPlain [(''value'', JNum 7), (''z'', JNum 0)])])
     None
   = Inr (JObj (Some (JPlain [(''value'', JNum 7), (''z'', JNum 0)])) [(''a'', JNum 1)])
   \<and> reduceData to_str
     (JObj (Some (JPlain [(''value'', JNum 7), (''z'', JNum 0)])) [(''a'', JNum 1)])
     None
   = Inr (JNum 7)"
  by code_simp

text \<open>
  C3, as the spec has it, fails in its last part: a one-key mapping whose key is not a
  scaffold name is not always handled as a generic mapping. \<^verbatim>\<open>entries\<close> is no scaffold name,
  and \<^verbatim>\<open>{"entries": {"a": 1, "b": 2}}\<close> reduces to \<^verbatim>\<open>{"a": 1, "b": 2}\<close>.
\<close>

theorem C3_counterexample:
  "''entries'' \<notin> set keysToReduce
   \<and> reduceData (\<lambda>v. ''undefined'') (JPlain [(''entries'', JPlain [(''a'', JNum 1), (''b'', JNum 2)])]) None
       = Inr (JPlain [(''a'', JNum 1), (''b'', JNum 2)])
   \<and> reduceData (\<lambda>v. ''undefined'') (JPlain [(''entries'', JPlain [(''a'', JNum 1), (''b'', JNum 2)])]) None
       \<noteq> Inr (JPlain [(''entries'', JPlain [(''a'', JNum 1), (''b'', JNum 2)])])"
  by code_simp

text \<open>
  C3, amended: the scaffold test of a mapping as parsed succeeds exactly when the mapping has
  exactly one key and that key is one of \<^verbatim>\<open>nestedStats\<close>, \<^verbatim>\<open>value\<close>, \<^verbatim>\<open>description\<close>,
  \<^verbatim>\<open>color\<close>; the result is then the reduction of that key's value, so
  \<^verbatim>\<open>reduce({"value": 5})\<close> is \<^verbatim>\<open>5\<close> and a chain of wrappers of any depth collapses. A one-key
  mapping whose key is no scaffold name, is not \<^verbatim>\<open>entries\<close> with a truthy value and is not
  \<^verbatim>\<open>__proto__\<close>, keeps its key around the reduction of its value.
\<close>

theorem C3_unwrap:
  "(scaffold_item (JPlain kvs) keysToReduce \<noteq> None
      \<longleftrightarrow> (\<exists>k' v'. kvs = [(k', v')] \<and> k' \<in> set keysToReduce))
   \<and> (k \<in> set keysToReduce \<longrightarrow>
        reduceData to_str (JPlain [(k, v)]) options = reduceData to_str v options)
   \<and> reduceData to_str (JPlain [(''value'', JNum 5)]) options = Inr (JNum 5)
   \<and> (set ks \<subseteq> set keysToReduce \<longrightarrow>
        reduceData to_str (wrap ks v) options = reduceData to_str v options)
   \<and> (k \<notin> set keysToReduce \<and> \<not> (k = ''entries'' \<and> truthy (Some v)) \<and> k \<noteq> ''__proto__'' \<longrightarrow>
        reduceData to_str (JPlain [(k, v)]) options
          = map_sum id (\<lambda>r. JPlain [(k, r)]) (reduceData to_str v options))"
proof (intro conjI impI)
  show "scaffold_item (JPlain kvs) keysToReduce \<noteq> None
      \<longleftrightarrow> (\<exists>k' v'. kvs = [(k', v')] \<and> k' \<in> set keysToReduce)"
    by (rule scaffold_item_plain)
  show "reduceData to_str (JPlain [(''value'', JNum 5)]) options = Inr (JNum 5)"
    by (simp add: reduceData_unwrap reduceData_JNum keysToReduce_def)
qed (simp_all add: reduceData_unwrap reduceData_wrap reduceData_single_generic)

theorem C3_unwrap_witness:
  "reduceData (\<lambda>v. ''undefined'')
     (wrap [''nestedStats'', ''value'', ''color'', ''description''] (JPlain [(''value'', JNum 7)]))
     None
   = Inr (JNum 7)
   \<and> reduceData (\<lambda>v. ''undefined'') (JPlain [(''cpu'', JPlain [(''value'', JNum 7)])]) None
   = Inr (JPlain [(''cpu'', JNum 7)])"
  using C3_unwrap [of "[]" "''cpu''" "\<lambda>v. ''undefined''" "JPlain [(''value'', JNum 7)]" None
      "[''nestedStats'', ''value'', ''color'', ''description'']"]
    C3_unwrap [of "[]" "''value''" "\<lambda>v. ''undefined''" "JNum 7" None "[]"]
  by (simp add: keysToReduce_def reduceData_JNum)

text \<open>
  C6 says that every scalar, \<^verbatim>\<open>null\<close> included, is returned unchanged and without raising.
  On \<^verbatim>\<open>null\<close> the source raises: line 159 reads a property of \<open>data\<close> before any test of
  its type. The same happens for a \<^verbatim>\<open>null\<close> below a key, and through \<^verbatim>\<open>normalizeData\<close>.
\<close>

theorem C6_null_raises:
  "reduceData to_str JNull options = Inl TypeError
   \<and> reduceData to_str (JPlain [(''a'', JNull)]) options = Inl TypeError
   \<and> normalizeData to_str E sep rmatch normalizeUtil (JPlain [(''a'', JNull)]) no_options w
       = (Inl TypeError, w)"
proof -
  have "reduceData to_str (JPlain [(''a'', JNull)]) opts = Inl TypeError" for opts
    using reduceData_single_generic [of "''a''" JNull to_str opts]
    by (simp add: keysToReduce_def reduceData_null)
  then show ?thesis by (simp add: reduceData_null normalizeData_def no_options_def)
qed

text \<open>
  C9, as the spec has it, fails: an \<^verbatim>\<open>entries\<close> field that is present, truthy and not a
  mapping is not handled as a generic mapping. \<^verbatim>\<open>{"entries": 5, "a": 1}\<close> reduces to
  \<^verbatim>\<open>{}\<close>; its keys are lost, and nothing is raised.
\<close>

theorem C9_counterexample:
  "reduceData (\<lambda>v. ''undefined'') (JPlain [(''entries'', JNum 5), (''a'', JNum 1)]) None = Inr (JPlain [])
   \<and> reduceData (\<lambda>v. ''undefined'') (JPlain [(''entries'', JNum 5), (''a'', JNum 1)]) None
       \<noteq> Inr (JPlain [(''entries'', JNum 5), (''a'', JNum 1)])"
  by code_simp

text \<open>
  C9, amended: a mapping as parsed that is not a sole scaffold wrapper (a scaffold-named key
  next to other keys, for one), whose \<^verbatim>\<open>entries\<close> field is absent or falsy and which has no
  key \<^verbatim>\<open>__proto__\<close>, goes through the generic handling. The call raises exactly when the
  reduction of one of the values raises, with the error of the first that does; otherwise the
  result is a mapping with the same key set, each key once, and under each key the reduction
  of its value, the properties being stored one after the other.
\<close>

theorem C9_generic_mapping:
  assumes "distinct (map fst kvs)"
    and "\<not> (\<exists>k v. kvs = [(k, v)] \<and> k \<in> set keysToReduce)"
    and "\<not> truthy (map_of kvs ''entries'')"
    and "''__proto__'' \<notin> fst ` set kvs"
  shows "reduceData to_str (JPlain kvs) options
       = map_sum id
           (\<lambda>rs. JPlain (foldl (\<lambda>ret (k, r). put ret k r) [] (zip (map fst kvs) rs)))
           (reduce_each to_str (map snd kvs) options)
     \<and> (reduce_each to_str (map snd kvs) options = Inr rs
         \<longleftrightarrow> list_all2 (\<lambda>v r. reduceData to_str v options = Inr r) (map snd kvs) rs)
     \<and> (length rs = length kvs \<longrightarrow>
          map_of (foldl (\<lambda>ret (k, r). put ret k r) [] (zip (map fst kvs) rs))
            = map_of (zip (map fst kvs) rs)
          \<and> distinct (map fst (foldl (\<lambda>ret (k, r). put ret k r) [] (zip (map fst kvs) rs)))
          \<and> fst ` set (foldl (\<lambda>ret (k, r). put ret k r) [] (zip (map fst kvs) rs))
              = fst ` set kvs)"
proof (intro conjI impI)
  show "reduceData to_str (JPlain kvs) options
       = map_sum id
           (\<lambda>rs. JPlain (foldl (\<lambda>ret (k, r). put ret k r) [] (zip (map fst kvs) rs)))
           (reduce_each to_str (map snd kvs) options)"
    by (rule reduceData_generic_plain [OF assms(2,3,4)])
  show "reduce_each to_str (map snd kvs) options = Inr rs
         \<longleftrightarrow> list_all2 (\<lambda>v r. reduceData to_str v options = Inr r) (map snd kvs) rs"
    by (rule reduce_each_iff)
next
  assume len: "length rs = length kvs"
  let ?z = "zip (map fst kvs) rs"
  from len have keys: "map fst ?z = map fst kvs" by (simp add: map_fst_zip)
  with assms(1) have "distinct (map fst ?z)" by simp
  then have "map_of (rev ?z) = map_of ?z" by (rule map_of_rev_distinct)
  then show "map_of (foldl (\<lambda>ret (k, r). put ret k r) [] ?z) = map_of ?z"
    by (simp add: map_of_foldl_put)
  show "distinct (map fst (foldl (\<lambda>ret (k, r). put ret k r) [] ?z))"
    using distinct_foldl_put [of "[]" "\<lambda>k. k" ?z] by simp
  have "fst ` set (foldl (\<lambda>ret (k, r). put ret k r) [] ?z) = fst ` set ?z"
    using keys_foldl_put [of "\<lambda>k. k" "[]" ?z] by simp
  also have "\<dots> = fst ` set kvs" using keys by (metis set_map)
  finally show "fst ` set (foldl (\<lambda>ret (k, r). put ret k r) [] ?z) = fst ` set kvs" .
qed

theorem C9_generic_mapping_witness:
  "reduceData (\<lambda>v. ''undefined'')
     (JPlain [(''value'', JNum 1), (''entries'', JNum 0), (''x'', JPlain [(''value'', JNum 2)])]) None
   = Inr (JPlain [(''value'', JNum 1), (''entries'', JNum 0), (''x'', JNum 2)])"
proof -
  have p: "put (put (put [] ''value'' (JNum 1)) ''entries'' (JNum 0)) ''x'' (JNum 2)
    = [(''value'', JNum 1), (''entries'', JNum 0), (''x'', JNum 2)]"
    by code_simp
  from C9_generic_mapping [of "[(''value'', JNum 1), (''entries'', JNum 0), (''x'', JPlain [(''value'', JNum 2)])]"
      "\<lambda>v. ''undefined''" None "[]"]
  show ?thesis by (simp add: reduceData_JNum reduceData_unwrap keysToReduce_def p)
qed

section \<open>Properties of the key filter\<close>





lemma filter_null_free:
  shows "null_free v \<Longrightarrow> \<exists>r. filterDataByKeys v keys = Inr r \<and> null_free r"
    and "\<forall>kv\<in>set kvs. null_free (snd kv) \<Longrightarrow>
      \<exists>res. filter_props kvs keys = Inr res \<and> (\<forall>kv\<in>set res. null_free (snd kv))"
  by (induction v keys and kvs keys rule: filterDataByKeys_filter_props.induct) auto




section \<open>Properties of the key renamer\<close>

lemma js_set_cases:
  "\<exists>p' ps'. js_set (JObj p ps) k v = JObj p' ps'
     \<and> (ps' = put ps k v \<and> p' = p \<or> ps' = ps \<and> k = ''__proto__'' \<and> k \<notin> fst ` set ps)"
  by (auto split: sum.splits chain_end.splits option.splits)

lemma rename_props_append:
  "rename_props rm ret (xs @ zs) pats
     = (case rename_props rm ret xs pats of
          Inl e \<Rightarrow> Inl e
        | Inr ret' \<Rightarrow> rename_props rm ret' zs pats)"
  by (induction xs arbitrary: ret) (simp_all split: sum.splits)

lemma rename_props_obj:
  "rename_props rm (JObj p ret) kvs pats = Inr y \<Longrightarrow> distinct (map fst ret) \<Longrightarrow>
     \<exists>p' res. y = JObj p' res \<and> distinct (map fst res)"
proof (induction kvs arbitrary: p ret)
  case Nil
  then show ?case by auto
next
  case (Cons kv kvs)
  let ?k = "new_key rm pats (fst kv)"
  from Cons.prems(1) obtain r where
    run: "rename_props rm (js_set (JObj p ret) ?k r) kvs pats = Inr y"
    by (auto split: sum.splits)
  from js_set_cases [of p ret ?k r] obtain p' ps' where
    s: "js_set (JObj p ret) ?k r = JObj p' ps'" and c: "ps' = put ret ?k r \<or> ps' = ret"
    by blast
  from c Cons.prems(2) have "distinct (map fst ps')" by (auto simp: distinct_put)
  with Cons.IH [of p' ps'] run s show ?case by simp
qed

lemma rename_props_other:
  "rename_props rm (JObj p ret) kvs pats = Inr (JObj p' res) \<Longrightarrow>
     \<forall>kv\<in>set kvs. new_key rm pats (fst kv) \<noteq> n \<Longrightarrow> map_of res n = map_of ret n"
proof (induction kvs arbitrary: p ret)
  case Nil
  then show ?case by simp
next
  case (Cons kv kvs)
  let ?k = "new_key rm pats (fst kv)"
  from Cons.prems(1) obtain r where
    run: "rename_props rm (js_set (JObj p ret) ?k r) kvs pats = Inr (JObj p' res)"
    by (auto split: sum.splits)
  from js_set_cases [of p ret ?k r] obtain q ps' where
    s: "js_set (JObj p ret) ?k r = JObj q ps'" and c: "ps' = put ret ?k r \<or> ps' = ret"
    by blast
  from Cons.prems(2) have k: "?k \<noteq> n" and rest: "\<forall>kv\<in>set kvs. new_key rm pats (fst kv) \<noteq> n"
    by simp_all
  from run s have "rename_props rm (JObj q ps') kvs pats = Inr (JObj p' res)" by simp
  from Cons.IH [OF this rest] have "map_of res n = map_of ps' n" .
  also from c k have "map_of ps' n = map_of ret n" by (auto simp: map_of_put)
  finally show ?case .
qed

lemma single_entry:
  "distinct (map fst res) \<Longrightarrow> map_of res n = Some r \<Longrightarrow> filter (\<lambda>kv. fst kv = n) res = [(n, r)]"
proof (induction res)
  case Nil
  then show ?case by simp
next
  case (Cons kv res)
  show ?case
  proof (cases "fst kv = n")
    case True
    with Cons.prems have "kv = (n, r)" by (cases kv) simp
    moreover have "filter (\<lambda>kv. fst kv = n) res = []"
    proof -
      from True Cons.prems(1) have "n \<notin> fst ` set res" by simp
      then have "\<forall>q\<in>set res. fst q \<noteq> n" by auto
      then show ?thesis by (simp add: filter_empty_conv)
    qed
    ultimately show ?thesis by simp
  next
    case False
    with Cons show ?thesis by auto
  qed
qed

text \<open>
  Away from \<^verbatim>\<open>__proto__\<close> a collision leaves one entry: when two keys of a mapping get
  the same new key, other than \<^verbatim>\<open>__proto__\<close>, and no key enumerated after the second gets
  it too, the result has exactly one entry under the new key, with the renamed subtree of
  the second.
\<close>

lemma rename_collision:
  assumes "renameKeysInData rmatch (JObj p (xs @ (k\<^sub>1, v\<^sub>1) # ys @ (k\<^sub>2, v\<^sub>2) # zs)) patterns = Inr y"
    and "new_key rmatch patterns k\<^sub>1 = n" and "new_key rmatch patterns k\<^sub>2 = n"
    and "\<forall>kv\<in>set zs. new_key rmatch patterns (fst kv) \<noteq> n"
    and "n \<noteq> ''__proto__''"
  shows "\<exists>q res r\<^sub>2. y = JObj q res \<and> renameKeysInData rmatch v\<^sub>2 patterns = Inr r\<^sub>2
           \<and> filter (\<lambda>kv. fst kv = n) res = [(n, r\<^sub>2)]"
proof -
  let ?pre = "xs @ (k\<^sub>1, v\<^sub>1) # ys"
  from assms(1) have run: "rename_props rmatch (JPlain []) (?pre @ (k\<^sub>2, v\<^sub>2) # zs) patterns = Inr y"
    by simp
  have d0: "distinct (map fst ([] :: (string \<times> json) list))" by simp
  from rename_props_obj [OF run d0] obtain q res where y: "y = JObj q res"
    and dist: "distinct (map fst res)"
    by blast
  note app = rename_props_append [of rmatch "JPlain []" ?pre "(k\<^sub>2, v\<^sub>2) # zs" patterns]
  from app [symmetric] run
  have c: "(case rename_props rmatch (JPlain []) ?pre patterns of
           Inl e \<Rightarrow> Inl e
         | Inr ret' \<Rightarrow> rename_props rmatch ret' ((k\<^sub>2, v\<^sub>2) # zs) patterns) = Inr y"
    by (rule trans)
  have "\<exists>p' ps. rename_props rmatch (JPlain []) ?pre patterns = Inr (JObj p' ps)
      \<and> rename_props rmatch (JObj p' ps) ((k\<^sub>2, v\<^sub>2) # zs) patterns = Inr y"
  proof (cases "rename_props rmatch (JPlain []) ?pre patterns")
    case (Inl e)
    from c show ?thesis unfolding Inl by simp
  next
    case (Inr ret)
    have d: "distinct (map fst ([] :: (string \<times> json) list))" by simp
    from rename_props_obj [OF Inr d] obtain p' ps where ret: "ret = JObj p' ps" by blast
    from c have "rename_props rmatch ret ((k\<^sub>2, v\<^sub>2) # zs) patterns = Inr y"
      unfolding Inr by (simp del: rename_props.simps)
    then show ?thesis unfolding Inr ret by blast
  qed
  then obtain p' ps where
    tail: "rename_props rmatch (JObj p' ps) ((k\<^sub>2, v\<^sub>2) # zs) patterns = Inr y"
    by blast
  have "\<exists>r\<^sub>2. renameKeysInData rmatch v\<^sub>2 patterns = Inr r\<^sub>2
      \<and> rename_props rmatch (js_set (JObj p' ps) n r\<^sub>2) zs patterns = Inr y"
  proof (cases "renameKeysInData rmatch v\<^sub>2 patterns")
    case (Inl e)
    with tail show ?thesis by simp
  next
    case (Inr r)
    with tail assms(3) show ?thesis by (simp del: js_set.simps)
  qed
  then obtain r\<^sub>2 where r2: "renameKeysInData rmatch v\<^sub>2 patterns = Inr r\<^sub>2"
    and rest: "rename_props rmatch (js_set (JObj p' ps) n r\<^sub>2) zs patterns = Inr y"
    by blast
  from assms(5) have "js_set (JObj p' ps) n r\<^sub>2 = JObj p' (put ps n r\<^sub>2)" by simp
  with rest y have "rename_props rmatch (JObj p' (put ps n r\<^sub>2)) zs patterns = Inr (JObj q res)"
    by simp
  from rename_props_other [OF this assms(4)] have "map_of res n = Some r\<^sub>2"
    by (simp add: map_of_put)
  with dist have "filter (\<lambda>kv. fst kv = n) res = [(n, r\<^sub>2)]" by (rule single_entry)
  with y r2 show ?thesis by blast
qed

text \<open>
  With a pattern that matches the digit, both keys of \<^verbatim>\<open>{"7": 2, "a7": 1}\<close> are renamed to
  \<^verbatim>\<open>7\<close>, and the one enumerated last supplies the value.
\<close>

lemma rename_collision_example:
  "renameKeysInData (\<lambda>(p :: unit) k. if sublist ''7'' k then Some [Some ''7''] else None)
     (JPlain [(''7'', JNum 2), (''a7'', JNum 1)]) [(''7'', Bare ())]
   = Inr (JPlain [(''7'', JNum 1)])"
  by code_simp

text \<open>
  C4, as the spec has it, fails: the elements of a sequence are not renamed. With a pattern
  that renames \<^verbatim>\<open>tmm_0\<close> to \<^verbatim>\<open>0\<close>, the mapping \<^verbatim>\<open>{"tmm_0": 5}\<close> becomes \<^verbatim>\<open>{"0": 5}\<close>, and
  the sequence \<^verbatim>\<open>[{"tmm_0": 5}]\<close> stays as it is.
\<close>

theorem C4_counterexample:
  "renameKeysInData (\<lambda>(p :: unit) k. if k = ''tmm_0'' then Some [Some ''tmm_0'', Some ''0''] else None)
     (JArr [JPlain [(''tmm_0'', JNum 5)]]) [(''tmm'', WithGroup () (Some 1))]
   = Inr (JArr [JPlain [(''tmm_0'', JNum 5)]])
   \<and> renameKeysInData (\<lambda>(p :: unit) k. if k = ''tmm_0'' then Some [Some ''tmm_0'', Some ''0''] else None)
     (JPlain [(''tmm_0'', JNum 5)]) [(''tmm'', WithGroup () (Some 1))]
   = Inr (JPlain [(''0'', JNum 5)])"
  by (simp add: new_key_def rename_step_def str_includes_def match_group_def property_name_def
      put_Nil)

text \<open>
  C4, amended: for every sequence node, rename returns the sequence as it is; its elements
  are not visited, so mappings inside a sequence keep their keys.
\<close>

theorem C4_rename_sequence:
  "renameKeysInData rmatch (JArr xs) patterns = Inr (JArr xs)"
  by simp

text \<open>
  C10 says that two keys renamed to the same new key leave exactly one entry under it, that
  of the key enumerated last. The source stores each renamed subtree with
  \<^verbatim>\<open>ret[renamedKey] = renameKeysInData(data[k], patterns)\<close> (line 132), and for the new key
  \<^verbatim>\<open>__proto__\<close> that assignment creates no entry. With the pattern \<^verbatim>\<open>__proto__\<close> under the
  trigger \<^verbatim>\<open>proto\<close>, both keys of \<^verbatim>\<open>{"x__proto__": 1, "y__proto__": 2}\<close> are renamed to
  \<^verbatim>\<open>__proto__\<close> and the result is \<^verbatim>\<open>{}\<close>; with mappings for values the result has no entry
  either, and the second subtree has become its prototype.
\<close>

theorem C10_collision_on_proto_lost:
  "new_key (\<lambda>(p :: unit) k. if sublist ''__proto__'' k then Some [Some ''__proto__''] else None)
     [(''proto'', Bare ())] ''x__proto__'' = ''__proto__''
   \<and> new_key (\<lambda>(p :: unit) k. if sublist ''__proto__'' k then Some [Some ''__proto__''] else None)
     [(''proto'', Bare ())] ''y__proto__'' = ''__proto__''
   \<and> renameKeysInData
     (\<lambda>(p :: unit) k. if sublist ''__proto__'' k then Some [Some ''__proto__''] else None)
     (JPlain [(''x__proto__'', JNum 1), (''y__proto__'', JNum 2)]) [(''proto'', Bare ())]
   = Inr (JPlain [])
   \<and> renameKeysInData
     (\<lambda>(p :: unit) k. if sublist ''__proto__'' k then Some [Some ''__proto__''] else None)
     (JPlain [(''x__proto__'', JPlain [(''m'', JNum 1)]), (''y__proto__'', JPlain [(''n'', JNum 2)])])
     [(''proto'', Bare ())]
   = Inr (JObj (Some (JPlain [(''n'', JNum 2)])) [])"
  by code_simp

section \<open>Properties of the key-path resolver\<close>






text \<open>
  Through an inherited name the walk reaches a function of the engine, and through
  \<^verbatim>\<open>__proto__\<close> twice it reaches \<^verbatim>\<open>null\<close>, where a further segment raises.
\<close>

lemma resolve_inherited_examples:
  "getDataByKey node_engine ''::'' (JPlain [(''a'', JPlain [(''b'', JNum 1)])]) ''a::toString''
     = Inr (Fun ''Object.prototype.toString'')"
  "getDataByKey node_engine ''::'' (JPlain []) ''__proto__::__proto__'' = Inr (Val JNull)"
  "getDataByKey node_engine ''::'' (JPlain []) ''__proto__::__proto__::x'' = Inl TypeError"
  by code_simp+




section \<open>Properties of the custom function stage\<close>

lemma add_args_data:
  "''data'' \<in> fst ` set ps \<Longrightarrow> add_args acc ps = Inl NamedArgumentNotAllowed"
  by (induction ps arbitrary: acc) auto

lemma runCustomFunction_data:
  assumes "args options = Some (JObj p a)" and "''data'' \<in> fst ` set a"
  shows "runCustomFunction normalizeUtil data options w = (Inl NamedArgumentNotAllowed, w)"
  using assms by (simp add: runCustomFunction_def add_args_data)

text \<open>
  C8: when the arguments of the custom function are a mapping with a key \<^verbatim>\<open>data\<close>, the
  call of \<^verbatim>\<open>normalizeData\<close> ends in an error, the same for every registry, and the state the
  registered functions act on is as it was: none of them has run.
\<close>

theorem C8_data_argument_rejected:
  assumes "opt_runCustomFunction options = Some c" and "rcf_args c = Some (JObj p a)"
    and "''data'' \<in> fst ` set a"
  shows "\<exists>e. \<forall>normalizeUtil.
           normalizeData to_str E STATS_KEY_SEP rmatch normalizeUtil data options w = (Inl e, w)"
proof -
  have "normalizeData to_str E STATS_KEY_SEP rmatch normalizeUtil data options w
      = normalizeData to_str E STATS_KEY_SEP rmatch (\<lambda>n. None) data options w
    \<and> (\<exists>e. normalizeData to_str E STATS_KEY_SEP rmatch (\<lambda>n. None) data options w = (Inl e, w))"
    for normalizeUtil :: "string \<Rightarrow> (rval \<Rightarrow> json \<Rightarrow> 'b \<Rightarrow> (error + rval) \<times> 'b) option"
    using assms
    by (simp add: normalizeData_def runCustomFunction_data split: sum.splits option.splits)
  then show ?thesis by metis
qed

theorem C8_data_argument_rejected_witness:
  "normalizeData (\<lambda>v. ''undefined'') node_engine ''::'' (\<lambda>(p :: unit) k. None)
     (\<lambda>n. Some (\<lambda>d a (calls :: nat). (Inr (Val (JNum 0)), Suc calls)))
     (JPlain [(''x'', JNum 1)])
     (no_options \<lparr>opt_runCustomFunction :=
        Some \<lparr>rcf_name = ''f'', rcf_args = Some (JPlain [(''data'', JNum 2)])\<rparr>\<rparr>)
     0
   = (Inl NamedArgumentNotAllowed, 0)
   \<and> normalizeData (\<lambda>v. ''undefined'') node_engine ''::'' (\<lambda>(p :: unit) k. None)
     (\<lambda>n. Some (\<lambda>d a (calls :: nat). (Inr (Val (JNum 0)), Suc calls)))
     (JPlain [(''x'', JNum 1)])
     (no_options \<lparr>opt_runCustomFunction :=
        Some \<lparr>rcf_name = ''f'', rcf_args = Some (JPlain [(''other'', JNum 2)])\<rparr>\<rparr>)
     0
   = (Inr (Val (JNum 0)), 1)"
proof -
  let ?o = "no_options \<lparr>opt_runCustomFunction :=
        Some \<lparr>rcf_name = ''f'', rcf_args = Some (JPlain [(''data'', JNum 2)])\<rparr>\<rparr> :: unit options"
  have r: "reduceData (\<lambda>v. ''undefined'') (JPlain [(''x'', JNum 1)]) None = Inr (JPlain [(''x'', JNum 1)])"
    by code_simp
  from C8_data_argument_rejected [of ?o "\<lparr>rcf_name = ''f'', rcf_args = Some (JPlain [(''data'', JNum 2)])\<rparr>"
      None "[(''data'', JNum 2)]" "\<lambda>v. ''undefined''" node_engine "''::''" "\<lambda>(p :: unit) k. None"
      "JPlain [(''x'', JNum 1)]" "0::nat"]
  obtain e where "normalizeData (\<lambda>v. ''undefined'') node_engine ''::'' (\<lambda>(p :: unit) k. None)
     (\<lambda>n. Some (\<lambda>d a (calls :: nat). (Inr (Val (JNum 0)), Suc calls))) (JPlain [(''x'', JNum 1)]) ?o 0
       = (Inl e, 0)"
    by (auto simp: no_options_def)
  then show ?thesis
    by (simp add: normalizeData_def no_options_def r runCustomFunction_def put_Nil)
qed

section \<open>The stages together\<close>

lemma set_put_subset: "set (put ps k v) \<subseteq> insert (k, v) (set ps)"
proof -
  have "set (AList.update k v ps) \<subseteq> insert (k, v) (set ps)" by (induction ps) auto
  then show ?thesis by (auto simp: put_def set_insert_index split: option.splits)
qed

lemma js_set_null_free:
  assumes "null_free ret" and "null_free v"
  shows "null_free (js_set ret k v)"
proof (cases ret)
  case (JObj p ps)
  from js_set_cases [of p ps k v] obtain p' ps' where
    s: "js_set (JObj p ps) k v = JObj p' ps'"
    and c: "ps' = put ps k v \<and> p' = p \<or> ps' = ps \<and> k = ''__proto__'' \<and> k \<notin> fst ` set ps"
    by blast
  have vals: "\<forall>kv\<in>set ps'. null_free (snd kv)"
  proof
    fix kv assume "kv \<in> set ps'"
    with c set_put_subset [of ps k v] have "kv = (k, v) \<or> kv \<in> set ps" by auto
    with assms JObj show "null_free (snd kv)" by auto
  qed
  have "case p' of None \<Rightarrow> True | Some q \<Rightarrow> null_free q"
  proof (cases "p' = p")
    case True
    with assms(1) JObj show ?thesis by simp
  next
    case False
    with s have "p' = Some v"
      by (auto split: if_splits sum.splits chain_end.splits option.splits)
    with assms(2) show ?thesis by simp
  qed
  with vals s JObj show ?thesis by simp
qed (use assms in simp_all)

text \<open>What the reduction returns holds no \<^verbatim>\<open>null\<close>.\<close>

lemma reduce_null_free:
  shows "reduceData ts data opts = Inr y \<Longrightarrow> null_free y"
    and "reduce_each ts xs opts = Inr rs \<Longrightarrow> \<forall>r\<in>set rs. null_free r"
    and "reduce_props ts ret kvs opts = Inr res \<Longrightarrow> null_free ret \<Longrightarrow> null_free res"
proof (induction ts data opts and ts xs opts and ts ret kvs opts arbitrary: y and rs and res
    rule: reduceData_reduce_each_reduce_props.induct)
  case (1 ts data opts)
  from "1.prems" have nn: "data \<noteq> JNull" by (auto simp: reduceData_null)
  show ?case
  proof (cases "scaffold_item data keysToReduce")
    case (Some item)
    with "1.prems" nn have "reduceData ts item opts = Inr y"
      by (subst (asm) reduceData.simps) simp
    with "1.IH"(6) [OF nn Some] show ?thesis .
  next
    case None
    show ?thesis
    proof (cases "has_entries data")
      case True
      with "1.prems" nn None have "reduceData ts (entries_ret data) opts = Inr y"
        by (subst (asm) reduceData.simps) simp
      with "1.IH"(1) [OF nn None True] show ?thesis .
    next
      case False
      note IH = "1.IH"(2-5) [OF nn None False]
      show ?thesis
      proof (cases data)
        case (JArr xs)
        show ?thesis
        proof (cases "catm_on opts")
          case True
          then obtain c where c: "opts = Some c" "str_truthy (keyName c)"
            by (auto simp: catm_on_def split: option.splits)
          from "1.prems" True obtain m where
            m: "convertArrayToMap ts xs (the (keyName c)) (keyNamePrefix c) = Inr m"
            and r: "reduceData ts m opts = Inr y"
            by (auto simp: JArr reduceData_JArr c split: sum.splits)
          from IH(2) [OF JArr c m r] show ?thesis .
        next
          case False
          with "1.prems" obtain rs where rs: "reduce_each ts xs opts = Inr rs" and y: "y = JArr rs"
            by (cases "reduce_each ts xs opts") (auto simp: JArr reduceData_JArr)
          have "\<forall>r\<in>set rs. null_free r"
          proof (cases opts)
            case None
            from IH(1) [OF JArr None rs] show ?thesis .
          next
            case (Some c)
            with False have "\<not> str_truthy (keyName c)" by (simp add: catm_on_def)
            from IH(3) [OF JArr Some this rs] show ?thesis .
          qed
          with y show ?thesis by simp
        qed
      next
        case (JObj p ps)
        from "1.prems" None False have "reduce_props ts (JPlain []) ps opts = Inr y"
          by (simp add: JObj reduceData_generic)
        from IH(4) [OF JObj this] show ?thesis by simp
      qed (use "1.prems" nn in \<open>auto simp: reduceData_JBool reduceData_JNum reduceData_JStr\<close>)
    qed
  qed
next
  case (2 ts opts)
  then show ?case by simp
next
  case (3 ts i rest opts)
  from "3.prems" obtain r rs' where r: "reduceData ts i opts = Inr r"
    and rs': "reduce_each ts rest opts = Inr rs'" and rs: "rs = r # rs'"
    by (auto split: sum.splits simp: map_sum_def)
  from "3.IH"(1) [OF r] "3.IH"(2) [OF r rs'] rs show ?case by simp
next
  case (4 ts ret opts)
  then show ?case by simp
next
  case (5 ts ret kv rest opts)
  from "5.prems"(1) obtain r where r: "reduceData ts (snd kv) opts = Inr r"
    and run: "reduce_props ts (js_set ret (fst kv) r) rest opts = Inr res"
    by (auto split: sum.splits)
  from "5.IH"(1) [OF r] have "null_free r" .
  with "5.prems"(2) have "null_free (js_set ret (fst kv) r)" by (rule js_set_null_free)
  from "5.IH"(2) [OF r run this] show ?case .
qed

text \<open>
  On a value without \<^verbatim>\<open>null\<close> the resolver does not raise, whatever the path, and reaches
  \<^verbatim>\<open>null\<close> only through a segment \<^verbatim>\<open>__proto__\<close>.
\<close>

lemma find_prop_null_free: "find_prop data k = Inl v \<Longrightarrow> null_free data \<Longrightarrow> null_free v"
proof (induction data k rule: find_prop.induct)
  case (1 kvs k)
  then show ?case by (auto split: option.splits dest!: map_of_SomeD)
next
  case (2 q kvs k)
  then show ?case by (auto split: option.splits dest!: map_of_SomeD)
next
  case (3 xs k)
  then show ?case
    by (auto split: option.splits if_splits dest!: map_of_SomeD set_zip_rightD)
next
  case (4 s k)
  then show ?case
    by (auto split: option.splits if_splits dest!: map_of_SomeD set_zip_rightD)
qed simp_all

lemma object_step_null_free:
  assumes "null_free data" and "i \<noteq> ''__proto__''"
  shows "holds_no_null (object_step E data i)"
proof (cases "find_prop data i")
  case (Inl v)
  from find_prop_null_free [OF Inl assms(1)] Inl show ?thesis by (simp add: object_step_def)
next
  case (Inr reached)
  with assms(2) show ?thesis
    by (cases reached)
      (simp_all add: object_step_def or_missing_def object_builtin_def array_builtin_def
        missing_key_def)
qed

lemma key_step_null_free:
  assumes "holds_no_null ret" and "i \<noteq> ''__proto__''"
  shows "\<exists>r. key_step E ret i = Inr r \<and> holds_no_null r"
proof (cases ret)
  case (Val v)
  with assms(1) have n: "null_free v" by simp
  show ?thesis
  proof (cases v)
    case (JArr xs)
    with object_step_null_free [OF n assms(2), of E] Val show ?thesis by simp
  next
    case (JObj p kvs)
    with object_step_null_free [OF n assms(2), of E] Val show ?thesis by simp
  qed (use n Val in \<open>simp_all add: missing_key_def\<close>)
qed (use assms(2) in \<open>simp_all add: or_missing_def object_builtin_def array_builtin_def
    missing_key_def\<close>)

lemma key_walk_null_free:
  "holds_no_null ret \<Longrightarrow> ''__proto__'' \<notin> set keys \<Longrightarrow>
     \<exists>r. key_walk E ret keys = Inr r \<and> holds_no_null r"
proof (induction keys arbitrary: ret)
  case Nil
  then show ?case by simp
next
  case (Cons i keys)
  from Cons.prems(2) have i: "i \<noteq> ''__proto__''" and rest: "''__proto__'' \<notin> set keys" by auto
  from key_step_null_free [OF Cons.prems(1) i, of E] obtain r where
    r: "key_step E ret i = Inr r" "holds_no_null r" by blast
  from Cons.IH [OF r(2) rest] r(1) show ?case by (simp del: key_step.simps)
qed

text \<open>
  So inside \<^verbatim>\<open>normalizeData\<close> the filter is never given \<^verbatim>\<open>null\<close>, unless the key path goes
  through \<^verbatim>\<open>__proto__\<close>.
\<close>

lemma filter_input_null_free:
  assumes "reduceData to_str data (opt_convertArrayToMap options) = Inr r"
    and "str_truthy (opt_key options) \<longrightarrow>
           ''__proto__'' \<notin> set (split STATS_KEY_SEP (the (opt_key options)))"
  shows "\<exists>r2. (if str_truthy (opt_key options)
               then getDataByKey E STATS_KEY_SEP r (the (opt_key options)) else Inr (Val r))
            = Inr r2 \<and> holds_no_null r2 \<and> (\<exists>r3. filter_value r2 keys = Inr r3)"
proof -
  from reduce_null_free(1) [OF assms(1)] have n: "holds_no_null (Val r)" by simp
  have "\<exists>r2. (if str_truthy (opt_key options)
               then getDataByKey E STATS_KEY_SEP r (the (opt_key options)) else Inr (Val r))
            = Inr r2 \<and> holds_no_null r2"
  proof (cases "str_truthy (opt_key options)")
    case True
    with assms(2) have "''__proto__'' \<notin> set (split STATS_KEY_SEP (the (opt_key options)))"
      by simp
    from key_walk_null_free [OF n this, of E] True show ?thesis by (simp add: getDataByKey_def)
  next
    case False
    with n show ?thesis by simp
  qed
  then obtain r2 where r2: "(if str_truthy (opt_key options)
               then getDataByKey E STATS_KEY_SEP r (the (opt_key options)) else Inr (Val r))
            = Inr r2" "holds_no_null r2" by blast
  have "\<exists>r3. filter_value r2 keys = Inr r3"
  proof (cases r2)
    case (Val v)
    with r2(2) have "null_free v" by simp
    from filter_null_free(1) [OF this, of keys] Val show ?thesis by auto
  qed simp_all
  with r2 show ?thesis by blast
qed

end
